theory Spec2Isabelle
  imports Main "HOL-Library.Word"
begin

section \<open>The bulk aggregator of \<open>src/src/async.cpp\<close>\<close>

text \<open>
  The development follows the source file function by function. C++ objects become
  records, the statics of \<open>Logger\<close> and the function-local static of
  \<open>Bulk::log\<close> become one record of globals that every operation takes and
  returns, undefined behaviour of the C++ abstract machine becomes an error value.
\<close>

subsection \<open>Errors\<close>

text \<open>
  The source raises nothing. The two errors are the undefined behaviours its statements
  can reach: \<open>++m_nestingLvl\<close> and \<open>--m_nestingLvl\<close> on an \<open>int\<close>
  at the end of its range, and a member call or \<open>delete\<close> through a handle that
  points to no live \<open>Bulk\<close>.
\<close>

datatype error = SignedOverflow | InvalidPointer

definition INT_MAX :: int where
  "INT_MAX = 2147483647"

definition INT_MIN :: int where
  "INT_MIN = - 2147483648"

subsection \<open>\<open>std::to_string\<close>\<close>

text \<open>The decimal digit \<open>d < 10\<close> as a character.\<close>

definition digit_char :: "nat \<Rightarrow> char" where
  "digit_char d = ''0123456789'' ! d"

function to_string_nat :: "nat \<Rightarrow> string" where
  "to_string_nat n =
     (if n < 10 then [digit_char n] else to_string_nat (n div 10) @ [digit_char (n mod 10)])"
  by pat_completeness auto
termination
  by (relation "measure (\<lambda>n. n)") auto

declare to_string_nat.simps [simp del]

text \<open>\<open>std::to_string(long)\<close>: a minus sign in front of the digits of a negative value.\<close>

definition to_string_long :: "int \<Rightarrow> string" where
  "to_string_long i = (if i < 0 then CHR ''-'' # to_string_nat (nat (- i)) else to_string_nat (nat i))"

text \<open>\<open>std::to_string(unsigned)\<close> of the 32-bit counter.\<close>

definition to_string_uint :: "32 word \<Rightarrow> string" where
  "to_string_uint c = to_string_nat (unat c)"

subsection \<open>Globals\<close>

text \<open>
  \<open>g_consoleLogQueue\<close> and \<open>g_fileLogQueue\<close> are the two \<open>std::queue\<close>s of
  \<open>Logger\<close>: \<open>push\<close> appends at the back, \<open>front\<close>/\<open>pop\<close> take from the
  head. \<open>postfix_counter\<close> is the \<open>std::atomic<unsigned int>\<close> of \<open>Bulk::log\<close>,
  which wraps at \<open>2^32\<close>. \<open>std::time(nullptr)\<close> reads a clock the program does not
  control: the clock is a function \<open>clk\<close> from the number of the read to the value read,
  and \<open>time_calls\<close> counts the reads made so far.
\<close>

record world =
  g_consoleLogQueue :: "string list"
  g_fileLogQueue :: "(string \<times> string) list"
  postfix_counter :: "32 word"
  time_calls :: nat

definition world0 :: world where
  "world0 = \<lparr>g_consoleLogQueue = [], g_fileLogQueue = [], postfix_counter = 0, time_calls = 0\<rparr>"

definition std_time :: "(nat \<Rightarrow> int) \<Rightarrow> world \<Rightarrow> int \<times> world" where
  "std_time clk w = (clk (time_calls w), w\<lparr>time_calls := Suc (time_calls w)\<rparr>)"

subsection \<open>\<open>class Bulk\<close>\<close>

text \<open>
  \<open>m_cmds\<close> is the content of the \<open>std::stringstream\<close>. \<open>m_buffer_size\<close> and
  \<open>m_nCmds\<close> are \<open>size_t\<close>; \<open>m_nCmds\<close> only grows by one per command appended to
  \<open>m_cmds\<close>, which holds at least one byte for each, so it stays below the size of the
  address space and never wraps: both are \<open>nat\<close>. \<open>m_nestingLvl\<close> is an \<open>int\<close>
  whose overflow is checked where the source increments and decrements it.
\<close>

record bulk =
  m_cmds :: string
  m_buffer_size :: nat
  m_nCmds :: nat
  m_time :: int
  m_nestingLvl :: int

text \<open>The constructor \<open>Bulk::Bulk(size_t buffer_size)\<close>.\<close>

definition Bulk :: "(nat \<Rightarrow> int) \<Rightarrow> nat \<Rightarrow> world \<Rightarrow> bulk \<times> world" where
  "Bulk clk buffer_size w =
     (let (t, w1) = std_time clk w
      in (\<lparr>m_cmds = ''bulk:'', m_buffer_size = buffer_size, m_nCmds = 0, m_time = t,
           m_nestingLvl = 0\<rparr>, w1))"

text \<open>The name \<open>Bulk::log\<close> gives the file of a batch.\<close>

definition log_filename :: "bulk \<Rightarrow> world \<Rightarrow> string" where
  "log_filename b w =
     ''bulk'' @ to_string_long (m_time b) @ ''_'' @ to_string_uint (postfix_counter w) @ ''.log''"

text \<open>\<open>Bulk::log\<close>, run without interruption by another thread.\<close>

definition log :: "(nat \<Rightarrow> int) \<Rightarrow> bulk \<times> world \<Rightarrow> bulk \<times> world" where
  "log clk s =
     (case s of (b, w) \<Rightarrow>
        let w1 = (if m_nCmds b > 0
                  then (let filename = log_filename b w
                        in w\<lparr>postfix_counter := postfix_counter w + 1,
                             g_fileLogQueue := g_fileLogQueue w @ [(filename, m_cmds b)],
                             g_consoleLogQueue := g_consoleLogQueue w @ [m_cmds b]\<rparr>)
                  else w);
            (t, w2) = std_time clk w1
        in (b\<lparr>m_nestingLvl := 0, m_nCmds := 0, m_time := t, m_cmds := ''bulk:''\<rparr>, w2))"

text \<open>\<open>Bulk::flush\<close>.\<close>

definition flush :: "(nat \<Rightarrow> int) \<Rightarrow> bulk \<times> world \<Rightarrow> bulk \<times> world" where
  "flush clk s = (if m_nestingLvl (fst s) = 0 then log clk s else s)"

text \<open>\<open>Bulk::process\<close>.\<close>

definition process :: "(nat \<Rightarrow> int) \<Rightarrow> string \<Rightarrow> bulk \<times> world \<Rightarrow> error + bulk \<times> world" where
  "process clk cmd s =
     (case s of (b, w) \<Rightarrow>
        if cmd = ''{'' then
          (let (b1, w1) = (if m_nestingLvl b = 0 then flush clk (b, w) else (b, w))
           in if m_nestingLvl b1 = INT_MAX then Inl SignedOverflow
              else Inr (b1\<lparr>m_nestingLvl := m_nestingLvl b1 + 1\<rparr>, w1))
        else if cmd = ''}'' then
          (if m_nestingLvl b = INT_MIN then Inl SignedOverflow
           else (let b1 = b\<lparr>m_nestingLvl := m_nestingLvl b - 1\<rparr>
                 in Inr (if m_nestingLvl b1 = 0 then flush clk (b1, w) else (b1, w))))
        else
          (let (b1, w1) = (if m_nCmds b > 0 then (b\<lparr>m_cmds := m_cmds b @ '',''\<rparr>, w)
                           else (let (t, w') = std_time clk w in (b\<lparr>m_time := t\<rparr>, w')));
               b2 = b1\<lparr>m_cmds := m_cmds b1 @ '' '' @ cmd\<rparr>;
               b3 = b2\<lparr>m_nCmds := m_nCmds b2 + 1\<rparr>
           in Inr (if m_nCmds b3 = m_buffer_size b3 \<and> m_nestingLvl b3 = 0
                   then flush clk (b3, w1) else (b3, w1))))"

text \<open>
  A sequence of \<open>process\<close> calls on one session, stopping at the first undefined
  behaviour.
\<close>

fun process_all :: "(nat \<Rightarrow> int) \<Rightarrow> string list \<Rightarrow> bulk \<times> world \<Rightarrow> error + bulk \<times> world" where
  "process_all clk [] s = Inr s"
| "process_all clk (cmd # cmds) s =
     (case process clk cmd s of Inl e \<Rightarrow> Inl e | Inr s' \<Rightarrow> process_all clk cmds s')"

subsection \<open>\<open>namespace async\<close>\<close>

text \<open>
  A handle is a \<open>void*\<close>: \<open>None\<close> is \<open>nullptr\<close>, \<open>Some a\<close> points to the
  object \<open>a\<close>. The heap maps the live \<open>Bulk\<close> objects to their fields; \<open>new\<close>
  makes an object that did not exist before, and allocation failure is left out.
  \<open>delete\<close> ends the object: a later member call or \<open>delete\<close> through the same
  pointer is undefined behaviour, the error \<open>InvalidPointer\<close>.
\<close>

type_synonym handle_t = "nat option"

record system =
  heap :: "nat \<Rightarrow> bulk option"
  next_object :: nat
  globals :: world

definition system0 :: system where
  "system0 = \<lparr>heap = (\<lambda>a. None), next_object = 0, globals = world0\<rparr>"

definition connect :: "(nat \<Rightarrow> int) \<Rightarrow> nat \<Rightarrow> system \<Rightarrow> handle_t \<times> system" where
  "connect clk bulk sys =
     (let (pBulk, w) = Bulk clk bulk (globals sys);
          a = next_object sys
      in (Some a, sys\<lparr>heap := (heap sys)(a := Some pBulk), next_object := Suc a, globals := w\<rparr>))"

definition disconnect :: "(nat \<Rightarrow> int) \<Rightarrow> handle_t \<Rightarrow> system \<Rightarrow> error + system" where
  "disconnect clk handle sys =
     (case handle of
        None \<Rightarrow> Inr sys
      | Some a \<Rightarrow>
          (case heap sys a of
             None \<Rightarrow> Inl InvalidPointer
           | Some b \<Rightarrow>
               (let (b', w) = flush clk (b, globals sys)
                in Inr (sys\<lparr>heap := (heap sys)(a := None), globals := w\<rparr>))))"

text \<open>The call \<open>pBulk->process(cmd)\<close> on the object \<open>a\<close>.\<close>

definition call_process :: "(nat \<Rightarrow> int) \<Rightarrow> nat \<Rightarrow> string \<Rightarrow> system \<Rightarrow> error + system" where
  "call_process clk a cmd sys =
     (case heap sys a of
        None \<Rightarrow> Inl InvalidPointer
      | Some b \<Rightarrow>
          (case process clk cmd (b, globals sys) of
             Inl e \<Rightarrow> Inl e
           | Inr (b', w) \<Rightarrow> Inr (sys\<lparr>heap := (heap sys)(a := Some b'), globals := w\<rparr>)))"

text \<open>
  \<open>std::getline\<close> on the rest of the stream: \<open>None\<close> when no character is left (the
  call sets \<open>failbit\<close> and the loop ends), otherwise the characters before the next line
  feed and the stream after it.
\<close>

definition getline :: "string \<Rightarrow> (string \<times> string) option" where
  "getline stream =
     (if stream = [] then None
      else Some (takeWhile (\<lambda>c. c \<noteq> CHR 0x0A) stream,
                 drop 1 (dropWhile (\<lambda>c. c \<noteq> CHR 0x0A) stream)))"

lemma getline_shorter: "getline stream = Some (cmd, rest) \<Longrightarrow> length rest < length stream"
  by (cases stream)
     (auto simp: getline_def less_Suc_eq_le length_dropWhile_le
           intro: le_trans [OF diff_le_self length_dropWhile_le] split: if_splits)

function receive_loop :: "(nat \<Rightarrow> int) \<Rightarrow> nat \<Rightarrow> string \<Rightarrow> system \<Rightarrow> error + system" where
  "receive_loop clk a stream sys =
     (case getline stream of
        None \<Rightarrow> Inr sys
      | Some (cmd, rest) \<Rightarrow>
          if cmd \<noteq> [] then
            (case call_process clk a cmd sys of
               Inl e \<Rightarrow> Inl e
             | Inr sys' \<Rightarrow> receive_loop clk a rest sys')
          else receive_loop clk a rest sys)"
  by pat_completeness auto
termination
  by (relation "measure (\<lambda>(clk, a, stream, sys). length stream)")
     (auto dest: getline_shorter)

declare receive_loop.simps [simp del]

definition receive :: "(nat \<Rightarrow> int) \<Rightarrow> handle_t \<Rightarrow> string \<Rightarrow> system \<Rightarrow> error + system" where
  "receive clk handle data sys =
     (case handle of
        None \<Rightarrow> Inr sys
      | Some a \<Rightarrow> receive_loop clk a data sys)"

text \<open>
  The commands one \<open>receive\<close> call feeds to \<open>process\<close>: the non-empty lines of the
  data, read the way the loop reads them.
\<close>

function commands_in :: "string \<Rightarrow> string list" where
  "commands_in stream =
     (case getline stream of
        None \<Rightarrow> []
      | Some (cmd, rest) \<Rightarrow> (if cmd \<noteq> [] then [cmd] else []) @ commands_in rest)"
  by pat_completeness auto
termination
  by (relation "measure length") (auto dest: getline_shorter)

declare commands_in.simps [simp del]

section \<open>Threads\<close>

text \<open>
  \<open>Bulk::log\<close> step by step. Between two of its statements another thread may run, so
  each statement that reads or writes shared state is a step of its own: the read of
  \<open>postfix_counter\<close> that builds the file name (\<open>postfix_counter.load()\<close>), the
  increment (\<open>++postfix_counter\<close>), the push to the file queue under its mutex,
  \<open>g_con_cv.notify_one()\<close>, the push to the console queue under its mutex,
  \<open>g_file_cv.notify_one()\<close>, and the reset of the object's own fields.
\<close>

datatype log_pc =
  L_name | L_incr | L_push_file | L_notify_con | L_push_console | L_notify_file | L_reset | L_done

record log_frame =
  self :: bulk
  filename :: string
  pc :: log_pc

text \<open>
  A worker is about to evaluate the predicate of \<open>wait\<close> with the mutex held
  (\<open>W_wait\<close>), blocked inside \<open>wait\<close> until its condition variable is notified
  (\<open>W_blocked\<close>), holds an item it has popped and is about to write it (\<open>W_io\<close>), or
  has left its loop (\<open>W_exit\<close>). \<open>std::condition_variable::wait\<close> may also return
  without a notification; nothing obliges an implementation to do so, and the model has
  no such step.
\<close>

datatype 'a worker_pc = W_wait | W_blocked | W_io 'a | W_exit

text \<open>
  \<open>Logger::~Logger\<close> has not started, is in \<open>join\<close> on worker thread \<open>i\<close> of
  \<open>g_workerThreads\<close> (0 is the console worker, 1 and 2 the file workers), or is done.
\<close>

datatype dtor_pc = D_start | D_join nat | D_done

text \<open>
  The state all threads share: the globals, the stop flag, where each worker and the
  destructor stand, the lines written to \<open>std::cout\<close>, the files written (name and
  content, in order), and the calls of \<open>Bulk::log\<close> in progress.
\<close>

record dispatcher =
  shared :: world
  s_bStopWorkers :: bool
  console_worker :: "string worker_pc"
  file_worker1 :: "(string \<times> string) worker_pc"
  file_worker2 :: "(string \<times> string) worker_pc"
  cout :: "string list"
  files :: "(string \<times> string) list"
  producers :: "log_frame list"
  dtor :: dtor_pc

datatype thread = Producer nat | ConsoleWorker | FileWorker1 | FileWorker2 | Destructor

text \<open>
  \<open>notify_one\<close> wakes a thread blocked on the condition variable, if there is one: the
  console worker on \<open>g_con_cv\<close>, one of the file workers on \<open>g_file_cv\<close>.
\<close>

definition notify_con :: "dispatcher \<Rightarrow> dispatcher" where
  "notify_con d = (if console_worker d = W_blocked then d\<lparr>console_worker := W_wait\<rparr> else d)"

definition notify_file :: "dispatcher \<Rightarrow> dispatcher" where
  "notify_file d =
     (if file_worker1 d = W_blocked then d\<lparr>file_worker1 := W_wait\<rparr>
      else if file_worker2 d = W_blocked then d\<lparr>file_worker2 := W_wait\<rparr>
      else d)"

definition log_step :: "(nat \<Rightarrow> int) \<Rightarrow> log_frame \<times> dispatcher \<Rightarrow> log_frame \<times> dispatcher" where
  "log_step clk s =
     (case s of (f, d) \<Rightarrow>
        (case pc f of
           L_name \<Rightarrow>
             if m_nCmds (self f) > 0
             then (f\<lparr>filename := log_filename (self f) (shared d), pc := L_incr\<rparr>, d)
             else (f\<lparr>pc := L_reset\<rparr>, d)
         | L_incr \<Rightarrow>
             (f\<lparr>pc := L_push_file\<rparr>,
              d\<lparr>shared := (shared d)\<lparr>postfix_counter := postfix_counter (shared d) + 1\<rparr>\<rparr>)
         | L_push_file \<Rightarrow>
             (f\<lparr>pc := L_notify_con\<rparr>,
              d\<lparr>shared := (shared d)\<lparr>g_fileLogQueue :=
                   g_fileLogQueue (shared d) @ [(filename f, m_cmds (self f))]\<rparr>\<rparr>)
         | L_notify_con \<Rightarrow> (f\<lparr>pc := L_push_console\<rparr>, notify_con d)
         | L_push_console \<Rightarrow>
             (f\<lparr>pc := L_notify_file\<rparr>,
              d\<lparr>shared := (shared d)\<lparr>g_consoleLogQueue :=
                   g_consoleLogQueue (shared d) @ [m_cmds (self f)]\<rparr>\<rparr>)
         | L_notify_file \<Rightarrow> (f\<lparr>pc := L_reset\<rparr>, notify_file d)
         | L_reset \<Rightarrow>
             (let (t, w) = std_time clk (shared d)
              in (f\<lparr>self := (self f)\<lparr>m_nestingLvl := 0, m_nCmds := 0, m_time := t,
                                       m_cmds := ''bulk:''\<rparr>,
                    pc := L_done\<rparr>,
                  d\<lparr>shared := w\<rparr>))
         | L_done \<Rightarrow> (f, d)))"

text \<open>
  \<open>Logger::console_logger\<close> and \<open>Logger::file_logger\<close>, one step of the loop. With the
  mutex held: an item in the queue is popped; no item and the stop flag set leaves the loop;
  no item and no stop flag blocks. A blocked or finished worker makes no step.
\<close>

definition console_logger :: "dispatcher \<Rightarrow> dispatcher" where
  "console_logger d =
     (case console_worker d of
        W_wait \<Rightarrow>
          (case g_consoleLogQueue (shared d) of
             [] \<Rightarrow> if s_bStopWorkers d then d\<lparr>console_worker := W_exit\<rparr>
                   else d\<lparr>console_worker := W_blocked\<rparr>
           | logStr # q \<Rightarrow>
               d\<lparr>shared := (shared d)\<lparr>g_consoleLogQueue := q\<rparr>, console_worker := W_io logStr\<rparr>)
      | W_blocked \<Rightarrow> d
      | W_io logStr \<Rightarrow> d\<lparr>cout := cout d @ [logStr], console_worker := W_wait\<rparr>
      | W_exit \<Rightarrow> d)"

definition file_logger ::
  "(dispatcher \<Rightarrow> (string \<times> string) worker_pc) \<Rightarrow>
   ((string \<times> string) worker_pc \<Rightarrow> dispatcher \<Rightarrow> dispatcher) \<Rightarrow> dispatcher \<Rightarrow> dispatcher" where
  "file_logger get put d =
     (case get d of
        W_wait \<Rightarrow>
          (case g_fileLogQueue (shared d) of
             [] \<Rightarrow> if s_bStopWorkers d then put W_exit d else put W_blocked d
           | nameLogPair # q \<Rightarrow>
               put (W_io nameLogPair) (d\<lparr>shared := (shared d)\<lparr>g_fileLogQueue := q\<rparr>\<rparr>))
      | W_blocked \<Rightarrow> d
      | W_io nameLogPair \<Rightarrow> put W_wait (d\<lparr>files := files d @ [nameLogPair]\<rparr>)
      | W_exit \<Rightarrow> d)"

text \<open>
  \<open>Logger::~Logger\<close>: it sets the stop flag, then joins the three threads in order. It
  notifies no condition variable. \<open>join\<close> returns once the thread has left its loop.
\<close>

definition Logger_dtor :: "dispatcher \<Rightarrow> dispatcher" where
  "Logger_dtor d =
     (case dtor d of
        D_start \<Rightarrow> d\<lparr>s_bStopWorkers := True, dtor := D_join 0\<rparr>
      | D_join i \<Rightarrow>
          if i = 0 then (if console_worker d = W_exit then d\<lparr>dtor := D_join 1\<rparr> else d)
          else if i = 1 then (if file_worker1 d = W_exit then d\<lparr>dtor := D_join 2\<rparr> else d)
          else (if file_worker2 d = W_exit then d\<lparr>dtor := D_done\<rparr> else d)
      | D_done \<Rightarrow> d)"

text \<open>One step of the thread the scheduler picks, and a whole schedule.\<close>

definition step :: "(nat \<Rightarrow> int) \<Rightarrow> thread \<Rightarrow> dispatcher \<Rightarrow> dispatcher" where
  "step clk t d =
     (case t of
        Producer i \<Rightarrow>
          if i < length (producers d)
          then (let (f, d') = log_step clk (producers d ! i, d)
                in d'\<lparr>producers := (producers d')[i := f]\<rparr>)
          else d
      | ConsoleWorker \<Rightarrow> console_logger d
      | FileWorker1 \<Rightarrow> file_logger file_worker1 (\<lambda>p d. d\<lparr>file_worker1 := p\<rparr>) d
      | FileWorker2 \<Rightarrow> file_logger file_worker2 (\<lambda>p d. d\<lparr>file_worker2 := p\<rparr>) d
      | Destructor \<Rightarrow> Logger_dtor d)"

fun run :: "(nat \<Rightarrow> int) \<Rightarrow> thread list \<Rightarrow> dispatcher \<Rightarrow> dispatcher" where
  "run clk [] d = d"
| "run clk (t # ts) d = run clk ts (step clk t d)"

text \<open>
  \<open>Logger::Logger\<close> has started the three workers; \<open>fs\<close> are the calls of
  \<open>Bulk::log\<close> that sessions are about to make.
\<close>

definition Logger :: "log_frame list \<Rightarrow> dispatcher" where
  "Logger fs =
     \<lparr>shared = world0, s_bStopWorkers = False, console_worker = W_wait, file_worker1 = W_wait,
      file_worker2 = W_wait, cout = [], files = [], producers = fs, dtor = D_start\<rparr>"

definition enter_log :: "bulk \<Rightarrow> log_frame" where
  "enter_log b = \<lparr>self = b, filename = [], pc = L_name\<rparr>"

text \<open>A clock that reads the same second at every call.\<close>

definition clock1 :: "nat \<Rightarrow> int" where
  "clock1 n = 1000"

text \<open>
  Two sessions of capacity 3 made in that second, one holding the command \<open>a\<close>, the
  other the command \<open>b\<close>.
\<close>

definition bulk_a :: bulk where
  "bulk_a = \<lparr>m_cmds = ''bulk: a'', m_buffer_size = 3, m_nCmds = 1, m_time = 1000,
              m_nestingLvl = 0\<rparr>"

definition bulk_b :: bulk where
  "bulk_b = \<lparr>m_cmds = ''bulk: b'', m_buffer_size = 3, m_nCmds = 1, m_time = 1000,
              m_nestingLvl = 0\<rparr>"

text \<open>
  A schedule: the three workers start and block on their empty queues; a session flushes
  one batch (\<open>Bulk::log\<close>); the console worker, woken by \<open>g_con_cv.notify_one()\<close>
  after the push to the file queue, finds its own queue still empty and blocks again; the
  batch is pushed to the console queue and \<open>g_file_cv.notify_one()\<close> wakes a file
  worker, which writes the file and blocks; then the destructor starts.
\<close>

definition one_flush_then_shutdown :: "thread list" where
  "one_flush_then_shutdown =
     [ConsoleWorker, FileWorker1, FileWorker2,
      Producer 0, Producer 0, Producer 0, Producer 0,
      ConsoleWorker,
      Producer 0, Producer 0,
      FileWorker1, FileWorker1, FileWorker1,
      Producer 0,
      Destructor]"

text \<open>The state that schedule ends in.\<close>

definition stranded :: dispatcher where
  "stranded =
     \<lparr>shared = \<lparr>g_consoleLogQueue = [''bulk: a''], g_fileLogQueue = [], postfix_counter = 1,
                 time_calls = 1\<rparr>,
      s_bStopWorkers = True, console_worker = W_blocked, file_worker1 = W_blocked,
      file_worker2 = W_blocked, cout = [], files = [(''bulk1000_0.log'', ''bulk: a'')],
      producers = [\<lparr>self = \<lparr>m_cmds = ''bulk:'', m_buffer_size = 3, m_nCmds = 0, m_time = 1000,
                              m_nestingLvl = 0\<rparr>,
                    filename = ''bulk1000_0.log'', pc = L_done\<rparr>],
      dtor = D_join 0\<rparr>"

section \<open>The specification's batch model\<close>

text \<open>
  The specification describes a batch as an ordered group of commands and a session by
  its pending buffer and its nesting depth. The definitions of this section follow the
  specification's words, to be compared with the code above.
\<close>

text \<open>
  The batch wire format: the prefix \<open>bulk:\<close>, one space and the first command, then a
  comma, a space and the command for each later one. It is used on non-empty batches only.
\<close>

fun wire_format :: "string list \<Rightarrow> string" where
  "wire_format [] = []"
| "wire_format (c # cs) = ''bulk:'' @ '' '' @ c @ concat (map (\<lambda>x. '', '' @ x) cs)"

text \<open>The plain commands of a sequence: everything but the two block markers.\<close>

definition commands_of :: "string list \<Rightarrow> string list" where
  "commands_of cmds = filter (\<lambda>c. c \<noteq> ''{'' \<and> c \<noteq> ''}'') cmds"

text \<open>
  The session of the specification's data model, with the batches flushed so far in
  place of the dispatcher.
\<close>

record session =
  pending :: "string list"
  nestingDepth :: int
  batches :: "string list list"

definition session0 :: session where
  "session0 = \<lparr>pending = [], nestingDepth = 0, batches = []\<rparr>"

text \<open>Transition 4 of the specification's state machine: a batch of zero commands is no output.\<close>

definition spec_flush :: "session \<Rightarrow> session" where
  "spec_flush \<sigma> =
     (if pending \<sigma> \<noteq> []
      then \<sigma>\<lparr>batches := batches \<sigma> @ [pending \<sigma>], pending := [], nestingDepth := 0\<rparr>
      else \<sigma>)"

text \<open>Transitions 1 to 3, for a session of capacity \<open>C\<close>.\<close>

definition spec_process :: "nat \<Rightarrow> string \<Rightarrow> session \<Rightarrow> session" where
  "spec_process C cmd \<sigma> =
     (if cmd = ''{'' then
        (let \<sigma>1 = (if nestingDepth \<sigma> = 0 then spec_flush \<sigma> else \<sigma>)
         in \<sigma>1\<lparr>nestingDepth := nestingDepth \<sigma>1 + 1\<rparr>)
      else if cmd = ''}'' then
        (let \<sigma>1 = \<sigma>\<lparr>nestingDepth := nestingDepth \<sigma> - 1\<rparr>
         in if nestingDepth \<sigma>1 = 0 then spec_flush \<sigma>1 else \<sigma>1)
      else
        (let \<sigma>1 = \<sigma>\<lparr>pending := pending \<sigma> @ [cmd]\<rparr>
         in if nestingDepth \<sigma>1 = 0 \<and> length (pending \<sigma>1) = C then spec_flush \<sigma>1 else \<sigma>1))"

fun spec_process_all :: "nat \<Rightarrow> string list \<Rightarrow> session \<Rightarrow> session" where
  "spec_process_all C [] \<sigma> = \<sigma>"
| "spec_process_all C (cmd # cmds) \<sigma> = spec_process_all C cmds (spec_process C cmd \<sigma>)"

text \<open>
  What the stream \<open>m_cmds\<close> holds while the commands \<open>cs\<close> are pending, and the
  relation between a \<open>Bulk\<close> with the globals and a session of the specification:
  the stream and the counter stand for the pending buffer, and each queue has grown by
  the formatted batches, in order. \<open>cq\<close> and \<open>fq\<close> are the console queue and the
  contents of the file queue before the session started.
\<close>

definition stream_of :: "string list \<Rightarrow> string" where
  "stream_of cs = (if cs = [] then ''bulk:'' else wire_format cs)"

definition refines :: "string list \<Rightarrow> string list \<Rightarrow> bulk \<times> world \<Rightarrow> session \<Rightarrow> bool" where
  "refines cq fq s \<sigma> \<longleftrightarrow>
     m_nCmds (fst s) = length (pending \<sigma>) \<and>
     m_cmds (fst s) = stream_of (pending \<sigma>) \<and>
     m_nestingLvl (fst s) = nestingDepth \<sigma> \<and>
     g_consoleLogQueue (snd s) = cq @ map wire_format (batches \<sigma>) \<and>
     map snd (g_fileLogQueue (snd s)) = fq @ map wire_format (batches \<sigma>)"

text \<open>
  The depth a sequence of commands leaves, from depth \<open>d\<close>, and the sequences that stay
  inside a block opened at depth \<open>d \<ge> 1\<close>: no close marker takes the depth below 1, and
  no open marker takes it beyond the range of \<open>int\<close>.
\<close>

fun depth_after :: "int \<Rightarrow> string list \<Rightarrow> int" where
  "depth_after d [] = d"
| "depth_after d (c # cs) =
     depth_after (if c = ''{'' then d + 1 else if c = ''}'' then d - 1 else d) cs"

fun in_block :: "int \<Rightarrow> string list \<Rightarrow> bool" where
  "in_block d [] = True"
| "in_block d (c # cs) =
     (if c = ''{'' then d < INT_MAX \<and> in_block (d + 1) cs
      else if c = ''}'' then 1 < d \<and> in_block (d - 1) cs
      else in_block d cs)"

text \<open>A clock for the concrete runs below: the \<open>n\<close>-th read returns \<open>1000 + n\<close>.\<close>

definition clock0 :: "nat \<Rightarrow> int" where
  "clock0 n = 1000 + int n"

text \<open>One call after another, stopping at the first error.\<close>

definition and_then :: "error + 'a \<Rightarrow> ('a \<Rightarrow> error + 'b) \<Rightarrow> error + 'b" where
  "and_then r f = (case r of Inl e \<Rightarrow> Inl e | Inr x \<Rightarrow> f x)"

text \<open>
  Reading a decimal string back, to show that \<open>std::to_string\<close> loses nothing.
\<close>

definition digit_val :: "char \<Rightarrow> nat" where
  "digit_val c = of_char c - 48"

definition nat_of_digits :: "string \<Rightarrow> nat" where
  "nat_of_digits s = foldl (\<lambda>a c. 10 * a + digit_val c) 0 s"

text \<open>
  The file names in the file queue, when no two calls of \<open>Bulk::log\<close> overlap: the
  \<open>i\<close>-th item was named with the value the counter had then, which is the counter now
  minus the number of items pushed since.
\<close>

definition names_inv :: "world \<Rightarrow> bool" where
  "names_inv w \<longleftrightarrow>
     (\<forall>i < length (g_fileLogQueue w). \<exists>t.
        fst (g_fileLogQueue w ! i) =
          ''bulk'' @ to_string_long t @ ''_'' @
          to_string_uint (postfix_counter w - of_nat (length (g_fileLogQueue w) - i)) @ ''.log'')"

section \<open>The code refines the specification's state machine\<close>

lemma stream_of_Nil [simp]: "stream_of [] = ''bulk:''"
  by (simp add: stream_of_def)

lemma stream_of_snoc:
  "stream_of (cs @ [c]) =
     (if cs = [] then stream_of cs @ '' '' @ c else stream_of cs @ '','' @ '' '' @ c)"
  by (cases cs) (simp_all add: stream_of_def)

lemma stream_of_wire: "cs \<noteq> [] \<Longrightarrow> stream_of cs = wire_format cs"
  by (simp add: stream_of_def)

lemma refines_Bulk:
  "refines (g_consoleLogQueue w) (map snd (g_fileLogQueue w)) (Bulk clk C w) session0"
  by (simp add: refines_def Bulk_def std_time_def session0_def)

lemma refines_flush:
  assumes "refines cq fq (b, w) \<sigma>" "nestingDepth \<sigma> = 0"
  shows "refines cq fq (flush clk (b, w)) (spec_flush \<sigma>)"
  using assms
  by (auto simp: refines_def flush_def log_def spec_flush_def std_time_def Let_def stream_of_wire)

lemma refines_process:
  assumes "refines cq fq s \<sigma>" "process clk cmd s = Inr s'"
  shows "refines cq fq s' (spec_process (m_buffer_size (fst s)) cmd \<sigma>)"
proof (cases s)
  case (Pair b w)
  show ?thesis
  proof (cases "cmd = ''{''")
    case True
    show ?thesis
    proof (cases "nestingDepth \<sigma> = 0")
      case d0: True
      from refines_flush [OF assms(1) [unfolded Pair] d0, of clk] assms(2) d0 assms(1) True
      show ?thesis
        by (auto simp: Pair process_def spec_process_def refines_def Let_def
                 split: prod.splits if_splits)
    next
      case False
      with assms True show ?thesis
        by (auto simp: Pair process_def spec_process_def refines_def Let_def
                 split: prod.splits if_splits)
    qed
  next
    case nopen: False
    show ?thesis
    proof (cases "cmd = ''}''")
      case True
      let ?b1 = "b\<lparr>m_nestingLvl := m_nestingLvl b - 1\<rparr>"
      let ?\<sigma>1 = "\<sigma>\<lparr>nestingDepth := nestingDepth \<sigma> - 1\<rparr>"
      from assms(1) have r1: "refines cq fq (?b1, w) ?\<sigma>1"
        by (simp add: refines_def Pair)
      show ?thesis
      proof (cases "nestingDepth \<sigma> - 1 = 0")
        case d0: True
        then have "nestingDepth ?\<sigma>1 = 0" by simp
        from refines_flush [OF r1 this, of clk] assms True d0
        show ?thesis
          by (auto simp: Pair process_def spec_process_def refines_def Let_def split: if_splits)
      next
        case False
        with r1 assms True show ?thesis
          by (auto simp: Pair process_def spec_process_def refines_def Let_def split: if_splits)
      qed
    next
      case False
      define b3 where "b3 = (if m_nCmds b > 0
          then b\<lparr>m_cmds := m_cmds b @ '','' @ '' '' @ cmd, m_nCmds := m_nCmds b + 1\<rparr>
          else b\<lparr>m_time := clk (time_calls w), m_cmds := m_cmds b @ '' '' @ cmd,
                 m_nCmds := m_nCmds b + 1\<rparr>)"
      define w1 where "w1 = (if m_nCmds b > 0 then w else w\<lparr>time_calls := Suc (time_calls w)\<rparr>)"
      let ?\<sigma>1 = "\<sigma>\<lparr>pending := pending \<sigma> @ [cmd]\<rparr>"
      from assms(1) have r1: "refines cq fq (b3, w1) ?\<sigma>1"
        by (auto simp: refines_def Pair b3_def w1_def stream_of_snoc)
      have p: "process clk cmd s =
                 Inr (if m_nCmds b3 = m_buffer_size b3 \<and> m_nestingLvl b3 = 0
                      then flush clk (b3, w1) else (b3, w1))"
        using nopen False
        by (simp add: Pair process_def b3_def w1_def std_time_def Let_def)
      have bs: "m_buffer_size b3 = m_buffer_size b"
        by (simp add: b3_def)
      show ?thesis
      proof (cases "m_nCmds b3 = m_buffer_size b3 \<and> m_nestingLvl b3 = 0")
        case fl: True
        with r1 have "nestingDepth ?\<sigma>1 = 0" by (simp add: refines_def)
        from refines_flush [OF r1 this, of clk] assms(2) p fl r1 nopen False bs
        show ?thesis
          by (auto simp: Pair spec_process_def refines_def Let_def)
      next
        case nf: False
        with r1 assms(2) p nopen False bs show ?thesis
          by (auto simp: Pair spec_process_def refines_def Let_def)
      qed
    qed
  qed
qed

lemma process_buffer_size:
  "process clk cmd s = Inr s' \<Longrightarrow> m_buffer_size (fst s') = m_buffer_size (fst s)"
  by (cases s)
     (auto simp: process_def flush_def log_def std_time_def Let_def split: if_splits prod.splits)

lemma refines_process_all:
  assumes "refines cq fq s \<sigma>" "process_all clk cmds s = Inr s'"
  shows "refines cq fq s' (spec_process_all (m_buffer_size (fst s)) cmds \<sigma>)"
  using assms
proof (induction cmds arbitrary: s \<sigma>)
  case Nil
  then show ?case by simp
next
  case (Cons cmd cmds)
  from Cons.prems(2) obtain s1
    where s1: "process clk cmd s = Inr s1" "process_all clk cmds s1 = Inr s'"
    by (auto split: sum.splits)
  from Cons.IH [OF refines_process [OF Cons.prems(1) s1(1)] s1(2)]
  show ?case by (simp add: process_buffer_size [OF s1(1)])
qed

lemma spec_process_conserves:
  "concat (batches (spec_process C cmd \<sigma>)) @ pending (spec_process C cmd \<sigma>) =
     concat (batches \<sigma>) @ pending \<sigma> @ commands_of [cmd]"
  by (simp add: spec_process_def spec_flush_def commands_of_def Let_def)

lemma spec_process_nonempty:
  "[] \<notin> set (batches \<sigma>) \<Longrightarrow> [] \<notin> set (batches (spec_process C cmd \<sigma>))"
  by (simp add: spec_process_def spec_flush_def Let_def)

lemma commands_of_Cons: "commands_of (c # cs) = commands_of [c] @ commands_of cs"
  by (simp add: commands_of_def)

lemma spec_process_all_conserves:
  "concat (batches (spec_process_all C cmds \<sigma>)) @ pending (spec_process_all C cmds \<sigma>) =
     concat (batches \<sigma>) @ pending \<sigma> @ commands_of cmds"
proof (induction cmds arbitrary: \<sigma>)
  case Nil
  show ?case by (simp add: commands_of_def)
next
  case (Cons c cs)
  show ?case
    by (simp add: Cons.IH spec_process_conserves commands_of_Cons [of c cs])
qed

lemma spec_process_all_nonempty:
  "[] \<notin> set (batches \<sigma>) \<Longrightarrow> [] \<notin> set (batches (spec_process_all C cmds \<sigma>))"
  by (induction cmds arbitrary: \<sigma>) (simp_all add: spec_process_nonempty)

lemma log_emits:
  assumes "m_nCmds b = length cs" "m_cmds b = stream_of cs"
  shows "g_consoleLogQueue (snd (log clk (b, w))) =
           g_consoleLogQueue w @ (if cs = [] then [] else [wire_format cs])"
    and "g_fileLogQueue (snd (log clk (b, w))) =
           g_fileLogQueue w @ (if cs = [] then [] else [(log_filename b w, wire_format cs)])"
  using assms by (auto simp: log_def std_time_def Let_def stream_of_wire)

lemma Bulk_buffer_size: "m_buffer_size (fst (Bulk clk C w0)) = C"
  by (simp add: Bulk_def std_time_def)

lemma reachable_refines:
  assumes "process_all clk cmds (Bulk clk C w0) = Inr s"
  shows "refines (g_consoleLogQueue w0) (map snd (g_fileLogQueue w0)) s
           (spec_process_all C cmds session0)"
  using refines_process_all [OF refines_Bulk assms] by (simp add: Bulk_buffer_size)

text \<open>
  \<open>receive\<close> on a live session is \<open>process_all\<close> on the commands of the data, so
  what is proved below of a sequence of \<open>process\<close> calls holds of the sessions the
  interface drives.
\<close>

lemma receive_loop_process_all:
  assumes "heap sys a = Some b"
  shows "receive_loop clk a stream sys =
           (case process_all clk (commands_in stream) (b, globals sys) of
              Inl e \<Rightarrow> Inl e
            | Inr (b', w) \<Rightarrow> Inr (sys\<lparr>heap := (heap sys)(a := Some b'), globals := w\<rparr>))"
  using assms
proof (induction clk a stream sys arbitrary: b rule: receive_loop.induct)
  case (1 clk a stream sys)
  show ?case
  proof (cases "getline stream")
    case None
    with "1.prems" show ?thesis
      by (subst receive_loop.simps, subst commands_in.simps) (simp add: fun_upd_idem)
  next
    case (Some p)
    obtain cmd rest where p: "p = (cmd, rest)" by (cases p)
    show ?thesis
    proof (cases "cmd = []")
      case True
      from "1.IH"(2) [OF Some p [symmetric]] True "1.prems"
      have "receive_loop clk a rest sys =
           (case process_all clk (commands_in rest) (b, globals sys) of
              Inl e \<Rightarrow> Inl e
            | Inr (b', w) \<Rightarrow> Inr (sys\<lparr>heap := (heap sys)(a := Some b'), globals := w\<rparr>))"
        by simp
      with Some p True show ?thesis
        by (subst receive_loop.simps, subst commands_in.simps) simp
    next
      case False
      show ?thesis
      proof (cases "process clk cmd (b, globals sys)")
        case (Inl e)
        with Some p False "1.prems" show ?thesis
          by (subst receive_loop.simps, subst commands_in.simps) (simp add: call_process_def)
      next
        case (Inr s1)
        obtain b1 w1 where s1: "s1 = (b1, w1)" by (cases s1)
        let ?sys' = "sys\<lparr>heap := (heap sys)(a := Some b1), globals := w1\<rparr>"
        have cp: "call_process clk a cmd sys = Inr ?sys'"
          using Inr s1 "1.prems" by (simp add: call_process_def)
        have h: "heap ?sys' a = Some b1" by simp
        from "1.IH"(1) [OF Some p [symmetric] False cp h]
        have "receive_loop clk a rest ?sys' =
           (case process_all clk (commands_in rest) (b1, w1) of
              Inl e \<Rightarrow> Inl e
            | Inr (b', w) \<Rightarrow> Inr (sys\<lparr>heap := (heap sys)(a := Some b'), globals := w\<rparr>))"
          by (simp split: sum.splits prod.splits)
        with Some p False cp Inr s1 show ?thesis
          by (subst receive_loop.simps, subst commands_in.simps) simp
      qed
    qed
  qed
qed

section \<open>The claims\<close>

subsection \<open>C1: the batch wire format\<close>

text \<open>
  Claim C1. Take a session made by the constructor with any capacity and let it process
  any sequence of commands. The strings it has pushed to the console queue are the wire
  formats of the batches the specification's state machine has flushed, in order; the
  contents of the file items it has pushed are the same strings; none of these batches is
  empty; and the batches, followed by the pending buffer, are the plain commands in
  arrival order. A flush of the session's buffer at this point (\<open>Bulk::log\<close>, whatever
  the globals \<open>w'\<close> are by then) pushes nothing to either queue when the pending buffer
  is empty, and otherwise pushes one string, the wire format of the pending buffer, to the
  console queue and the same string as the content of one file item.
\<close>

theorem flush_wire_format:
  assumes "process_all clk cmds (Bulk clk C w0) = Inr (b, w)"
  shows "g_consoleLogQueue w =
           g_consoleLogQueue w0 @ map wire_format (batches (spec_process_all C cmds session0)) \<and>
         map snd (g_fileLogQueue w) =
           map snd (g_fileLogQueue w0) @
             map wire_format (batches (spec_process_all C cmds session0)) \<and>
         [] \<notin> set (batches (spec_process_all C cmds session0)) \<and>
         concat (batches (spec_process_all C cmds session0)) @
           pending (spec_process_all C cmds session0) = commands_of cmds \<and>
         g_consoleLogQueue (snd (log clk (b, w'))) =
           g_consoleLogQueue w' @
             (if pending (spec_process_all C cmds session0) = [] then []
              else [wire_format (pending (spec_process_all C cmds session0))]) \<and>
         g_fileLogQueue (snd (log clk (b, w'))) =
           g_fileLogQueue w' @
             (if pending (spec_process_all C cmds session0) = [] then []
              else [(log_filename b w',
                     wire_format (pending (spec_process_all C cmds session0)))])"
proof -
  let ?\<sigma> = "spec_process_all C cmds session0"
  from reachable_refines [OF assms]
  have r: "refines (g_consoleLogQueue w0) (map snd (g_fileLogQueue w0)) (b, w) ?\<sigma>" .
  have ne: "[] \<notin> set (batches ?\<sigma>)"
    by (rule spec_process_all_nonempty) (simp add: session0_def)
  have co: "concat (batches ?\<sigma>) @ pending ?\<sigma> = commands_of cmds"
    by (simp add: spec_process_all_conserves) (simp add: session0_def)
  from r have pb: "m_nCmds b = length (pending ?\<sigma>)" "m_cmds b = stream_of (pending ?\<sigma>)"
    by (simp_all add: refines_def)
  from r ne co log_emits [OF pb, of clk w'] show ?thesis
    by (simp add: refines_def)
qed

theorem flush_wire_format_witness:
  "process_all clock0 [''a'', ''b'', ''c'', ''d''] (Bulk clock0 3 world0) =
     Inr (\<lparr>m_cmds = ''bulk: d'', m_buffer_size = 3, m_nCmds = 1, m_time = 1003,
            m_nestingLvl = 0\<rparr>,
          \<lparr>g_consoleLogQueue = [''bulk: a, b, c''],
           g_fileLogQueue = [(''bulk1001_0.log'', ''bulk: a, b, c'')],
           postfix_counter = 1, time_calls = 4\<rparr>) \<and>
   batches (spec_process_all 3 [''a'', ''b'', ''c'', ''d''] session0) = [[''a'', ''b'', ''c'']] \<and>
   pending (spec_process_all 3 [''a'', ''b'', ''c'', ''d''] session0) = [''d''] \<and>
   g_consoleLogQueue (snd (log clock0
       (\<lparr>m_cmds = ''bulk: d'', m_buffer_size = 3, m_nCmds = 1, m_time = 1003,
          m_nestingLvl = 0\<rparr>, world0))) = [''bulk: d'']"
proof -
  have run: "process_all clock0 [''a'', ''b'', ''c'', ''d''] (Bulk clock0 3 world0) =
     Inr (\<lparr>m_cmds = ''bulk: d'', m_buffer_size = 3, m_nCmds = 1, m_time = 1003,
            m_nestingLvl = 0\<rparr>,
          \<lparr>g_consoleLogQueue = [''bulk: a, b, c''],
           g_fileLogQueue = [(''bulk1001_0.log'', ''bulk: a, b, c'')],
           postfix_counter = 1, time_calls = 4\<rparr>)"
    by (simp add: process_def flush_def log_def Bulk_def world0_def std_time_def clock0_def
        log_filename_def to_string_long_def to_string_uint_def to_string_nat.simps
        digit_char_def INT_MAX_def INT_MIN_def Let_def)
  have sp: "spec_process_all 3 [''a'', ''b'', ''c'', ''d''] session0 =
      \<lparr>pending = [''d''], nestingDepth = 0, batches = [[''a'', ''b'', ''c'']]\<rparr>"
    by (simp add: spec_process_def spec_flush_def session0_def Let_def)
  from flush_wire_format [OF run, of world0] run sp show ?thesis
    by (simp add: world0_def)
qed

lemma spec_process_all_append:
  "spec_process_all C (xs @ ys) \<sigma> = spec_process_all C ys (spec_process_all C xs \<sigma>)"
  by (induction xs arbitrary: \<sigma>) simp_all

lemma spec_plain_accumulate:
  assumes "\<forall>c\<in>set ps. c \<noteq> ''{'' \<and> c \<noteq> ''}''"
    and "nestingDepth \<sigma> \<noteq> 0 \<or> C \<le> length (pending \<sigma>) \<or> length (pending \<sigma>) + length ps < C"
  shows "spec_process_all C ps \<sigma> = \<sigma>\<lparr>pending := pending \<sigma> @ ps\<rparr>"
  using assms
proof (induction ps arbitrary: \<sigma>)
  case Nil
  show ?case by simp
next
  case (Cons c ps)
  let ?\<sigma>1 = "\<sigma>\<lparr>pending := pending \<sigma> @ [c]\<rparr>"
  from Cons.prems(1) have pc: "c \<noteq> ''{''" "c \<noteq> ''}''" by simp_all
  from Cons.prems(2) have nofl: "\<not> (nestingDepth \<sigma> = 0 \<and> Suc (length (pending \<sigma>)) = C)"
    by auto
  from pc nofl have st: "spec_process C c \<sigma> = ?\<sigma>1"
    by (auto simp: spec_process_def Let_def)
  from Cons.prems(1) have pps: "\<forall>c\<in>set ps. c \<noteq> ''{'' \<and> c \<noteq> ''}''" by simp
  from Cons.prems(2)
  have c1: "nestingDepth ?\<sigma>1 \<noteq> 0 \<or> C \<le> length (pending ?\<sigma>1) \<or>
            length (pending ?\<sigma>1) + length ps < C"
    by auto
  from Cons.IH [OF pps c1] st show ?case by simp
qed

lemma spec_plain_chunk:
  assumes "\<forall>c\<in>set ps. c \<noteq> ''{'' \<and> c \<noteq> ''}''"
    and "nestingDepth \<sigma> = 0" "pending \<sigma> = []" "length ps = C" "1 \<le> C"
  shows "spec_process_all C ps \<sigma> = \<sigma>\<lparr>batches := batches \<sigma> @ [ps]\<rparr>"
proof -
  from assms(4,5) have ne: "ps \<noteq> []" by auto
  then have ps: "ps = butlast ps @ [last ps]" by simp
  have pl: "\<forall>c\<in>set (butlast ps). c \<noteq> ''{'' \<and> c \<noteq> ''}''"
    using assms(1) by (blast dest: in_set_butlastD)
  have lp: "last ps \<noteq> ''{'' \<and> last ps \<noteq> ''}''"
    using assms(1) ne by simp
  have acc: "spec_process_all C (butlast ps) \<sigma> = \<sigma>\<lparr>pending := pending \<sigma> @ butlast ps\<rparr>"
    using assms(3,4,5) by (intro spec_plain_accumulate [OF pl]) simp
  have "spec_process_all C ps \<sigma> = spec_process C (last ps) (spec_process_all C (butlast ps) \<sigma>)"
    by (subst ps) (simp add: spec_process_all_append)
  also have "\<dots> = \<sigma>\<lparr>batches := batches \<sigma> @ [butlast ps @ [last ps]]\<rparr>"
    using lp assms(2-5) ne by (simp add: acc spec_process_def spec_flush_def Let_def)
  finally show ?thesis using ps by simp
qed

lemma spec_plain_chunks:
  assumes "\<forall>c\<in>set ps. c \<noteq> ''{'' \<and> c \<noteq> ''}''"
    and "nestingDepth \<sigma> = 0" "pending \<sigma> = []" "length ps = n * C" "1 \<le> C"
  shows "spec_process_all C ps \<sigma> =
           \<sigma>\<lparr>batches := batches \<sigma> @ map (\<lambda>i. take C (drop (i * C) ps)) [0..<n]\<rparr>"
  using assms
proof (induction n arbitrary: ps \<sigma>)
  case 0
  then show ?case by simp
next
  case (Suc n)
  let ?h = "take C ps" and ?t = "drop C ps"
  let ?\<sigma>1 = "\<sigma>\<lparr>batches := batches \<sigma> @ [?h]\<rparr>"
  have lh: "length ?h = C" using Suc.prems(4) by simp
  have lt: "length ?t = n * C" using Suc.prems(4) by simp
  have ph: "\<forall>c\<in>set ?h. c \<noteq> ''{'' \<and> c \<noteq> ''}''"
    using Suc.prems(1) by (blast dest: in_set_takeD)
  have pt: "\<forall>c\<in>set ?t. c \<noteq> ''{'' \<and> c \<noteq> ''}''"
    using Suc.prems(1) by (blast dest: in_set_dropD)
  have h: "spec_process_all C ?h \<sigma> = ?\<sigma>1"
    by (rule spec_plain_chunk [OF ph Suc.prems(2,3) lh Suc.prems(5)])
  have t: "spec_process_all C ?t ?\<sigma>1 =
             ?\<sigma>1\<lparr>batches := batches ?\<sigma>1 @ map (\<lambda>i. take C (drop (i * C) ?t)) [0..<n]\<rparr>"
    using Suc.prems(2,3,5) by (intro Suc.IH [OF pt _ _ lt]) simp_all
  have sh: "map (\<lambda>i. take C (drop (i * C) ps)) [0..<Suc n] =
              ?h # map (\<lambda>i. take C (drop (i * C) ?t)) [0..<n]"
    by (simp add: upt_conv_Cons map_Suc_upt [symmetric] add.commute del: upt_Suc)
  have "spec_process_all C ps \<sigma> = spec_process_all C ?t (spec_process_all C ?h \<sigma>)"
    by (subst append_take_drop_id [of C ps, symmetric]) (simp only: spec_process_all_append)
  with h t sh show ?case by simp
qed

lemma process_plain_Inr:
  "cmd \<noteq> ''{'' \<Longrightarrow> cmd \<noteq> ''}'' \<Longrightarrow> \<exists>s'. process clk cmd s = Inr s'"
  by (cases s) (simp add: process_def Let_def split: prod.splits)

lemma process_all_plain_Inr:
  "\<forall>c\<in>set ps. c \<noteq> ''{'' \<and> c \<noteq> ''}'' \<Longrightarrow> \<exists>s'. process_all clk ps s = Inr s'"
proof (induction ps arbitrary: s)
  case Nil
  show ?case by simp
next
  case (Cons c ps)
  from Cons.prems have "c \<noteq> ''{''" "c \<noteq> ''}''" by simp_all
  then obtain s1 where s1: "process clk c s = Inr s1"
    using process_plain_Inr [of c clk s] by blast
  from Cons.prems have "\<forall>c\<in>set ps. c \<noteq> ''{'' \<and> c \<noteq> ''}''" by simp
  from Cons.IH [OF this, of s1] s1 show ?case by simp
qed

subsection \<open>C3: threshold batches\<close>

text \<open>
  Claim C3. A session made with capacity \<open>C \<ge> 1\<close> that processes \<open>k = n * C\<close> plain
  commands (none of them a block marker) returns, and it has pushed exactly \<open>n = k div C\<close>
  batches to each queue: the \<open>i\<close>-th, counting from 0, is the wire format of the \<open>C\<close>
  commands from position \<open>i * C\<close> on, and nothing is left pending.
\<close>

theorem threshold_batches:
  assumes "1 \<le> C" and "\<forall>c\<in>set cmds. c \<noteq> ''{'' \<and> c \<noteq> ''}''" and "length cmds = n * C"
  shows "\<exists>b w. process_all clk cmds (Bulk clk C w0) = Inr (b, w) \<and>
           g_consoleLogQueue w =
             g_consoleLogQueue w0 @ map (\<lambda>i. wire_format (take C (drop (i * C) cmds))) [0..<n] \<and>
           map snd (g_fileLogQueue w) =
             map snd (g_fileLogQueue w0) @
               map (\<lambda>i. wire_format (take C (drop (i * C) cmds))) [0..<n] \<and>
           length (map (\<lambda>i. wire_format (take C (drop (i * C) cmds))) [0..<n]) = length cmds div C \<and>
           (\<forall>i<n. length (take C (drop (i * C) cmds)) = C) \<and>
           m_nCmds b = 0"
proof -
  from process_all_plain_Inr [OF assms(2)] obtain b w
    where run: "process_all clk cmds (Bulk clk C w0) = Inr (b, w)"
    by (metis surj_pair)
  have sp: "spec_process_all C cmds session0 =
              session0\<lparr>batches := batches session0 @ map (\<lambda>i. take C (drop (i * C) cmds)) [0..<n]\<rparr>"
    by (rule spec_plain_chunks [OF assms(2) _ _ assms(3,1)]) (simp_all add: session0_def)
  have len: "\<forall>i<n. length (take C (drop (i * C) cmds)) = C"
  proof (intro allI impI)
    fix i assume "i < n"
    then have "Suc i * C \<le> n * C" by (intro mult_le_mono1) simp
    then show "length (take C (drop (i * C) cmds)) = C"
      using assms(3) by simp
  qed
  from reachable_refines [OF run] sp assms(1,3) len run show ?thesis
    by (simp add: refines_def session0_def comp_def)
qed

theorem threshold_batches_witness:
  "\<exists>b w. process_all clock0 [''a'', ''b'', ''c'', ''d''] (Bulk clock0 2 world0) = Inr (b, w) \<and>
          g_consoleLogQueue w = [''bulk: a, b'', ''bulk: c, d''] \<and>
          map snd (g_fileLogQueue w) = [''bulk: a, b'', ''bulk: c, d'']"
proof -
  have h1: "1 \<le> (2::nat)" by simp
  have h2: "\<forall>c\<in>set [''a'', ''b'', ''c'', ''d'']. c \<noteq> ''{'' \<and> c \<noteq> ''}''" by simp
  have h3: "length [''a'', ''b'', ''c'', ''d''] = 2 * 2" by simp
  have m: "map (\<lambda>i. wire_format (take 2 (drop (i * 2) [''a'', ''b'', ''c'', ''d'']))) [0..<2] =
             [''bulk: a, b'', ''bulk: c, d'']"
    by (simp add: upt_rec [of 0] upt_rec [of 1] upt_rec [of "Suc 0"] numeral_2_eq_2)
  from threshold_batches [OF h1 h2 h3, of clock0 world0] show ?thesis
    unfolding m by (auto simp: world0_def)
qed

lemma process_inside:
  assumes "m_nestingLvl b \<noteq> 0"
    and "cmd = ''{'' \<longrightarrow> m_nestingLvl b < INT_MAX"
    and "cmd = ''}'' \<longrightarrow> 1 < m_nestingLvl b"
  shows "\<exists>b' w'. process clk cmd (b, w) = Inr (b', w') \<and>
           g_consoleLogQueue w' = g_consoleLogQueue w \<and>
           g_fileLogQueue w' = g_fileLogQueue w \<and>
           postfix_counter w' = postfix_counter w \<and>
           m_nestingLvl b' =
             (if cmd = ''{'' then m_nestingLvl b + 1
              else if cmd = ''}'' then m_nestingLvl b - 1 else m_nestingLvl b)"
proof (cases "cmd = ''{''")
  case True
  with assms(1,2) show ?thesis
    by (simp add: process_def)
next
  case nopen: False
  show ?thesis
  proof (cases "cmd = ''}''")
    case True
    with assms(3) have "m_nestingLvl b \<noteq> INT_MIN" "m_nestingLvl b - 1 \<noteq> 0"
      by (simp_all add: INT_MIN_def)
    with True show ?thesis
      by (simp add: process_def Let_def)
  next
    case False
    with nopen assms(1) show ?thesis
      by (simp add: process_def Let_def std_time_def split: prod.splits)
  qed
qed

lemma in_block_quiet:
  assumes "in_block d p" "1 \<le> d" "m_nestingLvl (fst s) = d"
  shows "\<exists>s'. process_all clk p s = Inr s' \<and>
           g_consoleLogQueue (snd s') = g_consoleLogQueue (snd s) \<and>
           g_fileLogQueue (snd s') = g_fileLogQueue (snd s) \<and>
           postfix_counter (snd s') = postfix_counter (snd s) \<and>
           m_nestingLvl (fst s') = depth_after d p"
  using assms
proof (induction p arbitrary: d s)
  case Nil
  then show ?case by simp
next
  case (Cons c p)
  obtain b w where s: "s = (b, w)" by (cases s)
  let ?d' = "if c = ''{'' then d + 1 else if c = ''}'' then d - 1 else d"
  from Cons.prems have h: "m_nestingLvl b \<noteq> 0" "c = ''{'' \<longrightarrow> m_nestingLvl b < INT_MAX"
    "c = ''}'' \<longrightarrow> 1 < m_nestingLvl b"
    by (simp_all add: s)
  from process_inside [OF h, of clk w] obtain b' w'
    where st: "process clk c (b, w) = Inr (b', w')"
      "g_consoleLogQueue w' = g_consoleLogQueue w" "g_fileLogQueue w' = g_fileLogQueue w"
      "postfix_counter w' = postfix_counter w"
      "m_nestingLvl b' = (if c = ''{'' then m_nestingLvl b + 1
              else if c = ''}'' then m_nestingLvl b - 1 else m_nestingLvl b)"
    by blast
  from Cons.prems have ib: "in_block ?d' p" and d1: "1 \<le> ?d'"
    by (simp_all split: if_splits)
  from st(5) Cons.prems(3) have dd: "m_nestingLvl (fst (b', w')) = ?d'"
    by (simp add: s)
  from Cons.IH [OF ib d1 dd] st(1-4) show ?case
    by (simp add: s)
qed

lemma in_block_take: "in_block d p \<Longrightarrow> in_block d (take n p)"
proof (induction p arbitrary: d n)
  case Nil
  show ?case by simp
next
  case (Cons c p)
  then show ?case by (cases n) (simp_all split: if_splits)
qed

lemma spec_in_block:
  assumes "in_block d p" "1 \<le> d" "nestingDepth \<sigma> = d"
  shows "spec_process_all C p \<sigma> =
           \<sigma>\<lparr>pending := pending \<sigma> @ commands_of p, nestingDepth := depth_after d p\<rparr>"
  using assms
proof (induction p arbitrary: d \<sigma>)
  case Nil
  then show ?case by (simp add: commands_of_def)
next
  case (Cons c p)
  let ?d' = "if c = ''{'' then d + 1 else if c = ''}'' then d - 1 else d"
  let ?\<sigma>1 = "\<sigma>\<lparr>pending := pending \<sigma> @ commands_of [c], nestingDepth := ?d'\<rparr>"
  from Cons.prems have st: "spec_process C c \<sigma> = ?\<sigma>1"
    by (simp add: spec_process_def commands_of_def Let_def split: if_splits)
  from Cons.prems have ib: "in_block ?d' p" and d1: "1 \<le> ?d'"
    by (simp_all split: if_splits)
  have "nestingDepth ?\<sigma>1 = ?d'" by simp
  from Cons.IH [OF ib d1 this] st show ?case
    by (simp add: commands_of_Cons [of c p])
qed

lemma process_all_buffer_size:
  "process_all clk cmds s = Inr s' \<Longrightarrow> m_buffer_size (fst s') = m_buffer_size (fst s)"
proof (induction cmds arbitrary: s)
  case Nil
  then show ?case by simp
next
  case (Cons c cmds)
  from Cons.prems obtain s1
    where s1: "process clk c s = Inr s1" "process_all clk cmds s1 = Inr s'"
    by (auto split: sum.splits)
  from Cons.IH [OF s1(2)] process_buffer_size [OF s1(1)] show ?case by simp
qed

lemma process_open_at_zero:
  assumes "m_nestingLvl (fst s) = 0"
  shows "\<exists>s1. process clk ''{'' s = Inr s1 \<and> m_nestingLvl (fst s1) = 1"
  using assms
  by (cases s) (simp add: process_def flush_def log_def std_time_def INT_MAX_def Let_def)

lemma process_close_at_one:
  assumes "m_nestingLvl (fst s) = 1"
  shows "\<exists>s3. process clk ''}'' s = Inr s3"
  using assms
  by (cases s) (simp add: process_def INT_MIN_def Let_def)

subsection \<open>C2: a block is one batch\<close>

text \<open>
  Claim C2. Take any state \<open>s0\<close> a session reaches at nesting depth 0, and a block: an
  open marker, a body and the close marker that matches the open one. The body may hold
  plain commands and further blocks, nested to any depth within the range of \<open>int\<close>
  (\<open>in_block 1 body\<close>), and it closes every block it opens (\<open>depth_after 1 body = 1\<close>).
  Then all three steps return; while the body is processed, after each of its commands,
  both queues are what they were after the open marker (no flush at an inner boundary,
  whatever the capacity); and the close marker pushes exactly one batch, the wire format
  of all plain commands of the body in order, to the console queue and as the content of
  one file item, and leaves the depth at 0 and the buffer empty. A body with no plain
  command pushes nothing.
\<close>

theorem block_one_batch:
  assumes "process_all clk pre (Bulk clk C w0) = Inr s0" and "m_nestingLvl (fst s0) = 0"
    and "in_block 1 body" and "depth_after 1 body = 1"
  shows "\<exists>s1 s2 s3.
           process clk ''{'' s0 = Inr s1 \<and>
           process_all clk body s1 = Inr s2 \<and>
           process clk ''}'' s2 = Inr s3 \<and>
           (\<forall>n. \<exists>s. process_all clk (take n body) s1 = Inr s \<and>
                  g_consoleLogQueue (snd s) = g_consoleLogQueue (snd s1) \<and>
                  g_fileLogQueue (snd s) = g_fileLogQueue (snd s1)) \<and>
           g_consoleLogQueue (snd s3) =
             g_consoleLogQueue (snd s1) @
               (if commands_of body = [] then [] else [wire_format (commands_of body)]) \<and>
           map snd (g_fileLogQueue (snd s3)) =
             map snd (g_fileLogQueue (snd s1)) @
               (if commands_of body = [] then [] else [wire_format (commands_of body)]) \<and>
           m_nestingLvl (fst s3) = 0 \<and> m_nCmds (fst s3) = 0"
proof -
  let ?cq = "g_consoleLogQueue w0" and ?fq = "map snd (g_fileLogQueue w0)"
  let ?\<sigma>0 = "spec_process_all C pre session0"
  let ?\<sigma>1 = "spec_process C ''{'' ?\<sigma>0"
  let ?\<sigma>2 = "spec_process_all C body ?\<sigma>1"
  let ?\<sigma>3 = "spec_process C ''}'' ?\<sigma>2"
  have r0: "refines ?cq ?fq s0 ?\<sigma>0"
    by (rule reachable_refines [OF assms(1)])
  then have d0: "nestingDepth ?\<sigma>0 = 0"
    using assms(2) by (simp add: refines_def)
  have C0: "m_buffer_size (fst s0) = C"
    using process_all_buffer_size [OF assms(1)] by (simp add: Bulk_buffer_size)
  from process_open_at_zero [OF assms(2), of clk] obtain s1
    where s1: "process clk ''{'' s0 = Inr s1" "m_nestingLvl (fst s1) = 1"
    by blast
  have r1: "refines ?cq ?fq s1 ?\<sigma>1"
    using refines_process [OF r0 s1(1)] by (simp add: C0)
  have C1: "m_buffer_size (fst s1) = C"
    using process_buffer_size [OF s1(1)] C0 by simp
  have p1: "pending ?\<sigma>1 = []" "nestingDepth ?\<sigma>1 = 1"
    using d0 by (simp_all add: spec_process_def spec_flush_def Let_def)
  have one: "(1::int) \<le> 1" by simp
  from in_block_quiet [OF assms(3) one s1(2), of clk] assms(4) obtain s2
    where s2: "process_all clk body s1 = Inr s2" "m_nestingLvl (fst s2) = 1"
    by auto
  have r2: "refines ?cq ?fq s2 ?\<sigma>2"
    using refines_process_all [OF r1 s2(1)] by (simp add: C1)
  have C2: "m_buffer_size (fst s2) = C"
    using process_all_buffer_size [OF s2(1)] C1 by simp
  have \<sigma>2: "?\<sigma>2 = ?\<sigma>1\<lparr>pending := commands_of body, nestingDepth := 1\<rparr>"
    using spec_in_block [OF assms(3) one p1(2), of C] p1(1) assms(4) by simp
  from process_close_at_one [OF s2(2), of clk] obtain s3
    where s3: "process clk ''}'' s2 = Inr s3"
    by blast
  have r3: "refines ?cq ?fq s3 ?\<sigma>3"
    using refines_process [OF r2 s3] by (simp add: C2)
  have \<sigma>3: "batches ?\<sigma>3 =
              batches ?\<sigma>1 @ (if commands_of body = [] then [] else [commands_of body])"
    "pending ?\<sigma>3 = []" "nestingDepth ?\<sigma>3 = 0"
    by (simp_all add: \<sigma>2 spec_process_def [of C "''}''"] spec_flush_def Let_def)
  have quiet: "\<forall>n. \<exists>s. process_all clk (take n body) s1 = Inr s \<and>
                  g_consoleLogQueue (snd s) = g_consoleLogQueue (snd s1) \<and>
                  g_fileLogQueue (snd s) = g_fileLogQueue (snd s1)"
  proof
    fix n
    have ibt: "in_block 1 (take n body)"
      by (rule in_block_take [OF assms(3)])
    from in_block_quiet [OF ibt one s1(2), of clk]
    show "\<exists>s. process_all clk (take n body) s1 = Inr s \<and>
                  g_consoleLogQueue (snd s) = g_consoleLogQueue (snd s1) \<and>
                  g_fileLogQueue (snd s) = g_fileLogQueue (snd s1)"
      by blast
  qed
  from r1 r3 \<sigma>3 have out:
    "g_consoleLogQueue (snd s3) =
       g_consoleLogQueue (snd s1) @
         (if commands_of body = [] then [] else [wire_format (commands_of body)])"
    "map snd (g_fileLogQueue (snd s3)) =
       map snd (g_fileLogQueue (snd s1)) @
         (if commands_of body = [] then [] else [wire_format (commands_of body)])"
    "m_nestingLvl (fst s3) = 0" "m_nCmds (fst s3) = 0"
    by (simp_all add: refines_def)
  from s1(1) s2(1) s3 quiet out show ?thesis
    by blast
qed

theorem block_one_batch_witness:
  "\<exists>s1 s2 s3.
      process clock0 ''{'' (Bulk clock0 1 world0) = Inr s1 \<and>
      process_all clock0 [''{'', ''a'', ''}'', ''b''] s1 = Inr s2 \<and>
      process clock0 ''}'' s2 = Inr s3 \<and>
      g_consoleLogQueue (snd s1) = [] \<and>
      g_consoleLogQueue (snd s2) = [] \<and>
      g_consoleLogQueue (snd s3) = [''bulk: a, b'']"
proof -
  have h1: "process_all clock0 [] (Bulk clock0 1 world0) = Inr (Bulk clock0 1 world0)" by simp
  have h2: "m_nestingLvl (fst (Bulk clock0 1 world0)) = 0"
    by (simp add: Bulk_def std_time_def)
  have h3: "in_block 1 [''{'', ''a'', ''}'', ''b'']" by (simp add: INT_MAX_def)
  have h4: "depth_after 1 [''{'', ''a'', ''}'', ''b''] = 1" by simp
  have c: "commands_of [''{'', ''a'', ''}'', ''b''] = [''a'', ''b'']"
    by (simp add: commands_of_def)
  have o: "process clock0 ''{'' (Bulk clock0 1 world0) =
             Inr (\<lparr>m_cmds = ''bulk:'', m_buffer_size = 1, m_nCmds = 0, m_time = 1001,
                    m_nestingLvl = 1\<rparr>, world0\<lparr>time_calls := 2\<rparr>)"
    by (simp add: process_def flush_def log_def Bulk_def std_time_def world0_def clock0_def
        INT_MAX_def Let_def)
  from block_one_batch [OF h1 h2 h3 h4] obtain s1 s2 s3 where r:
    "process clock0 ''{'' (Bulk clock0 1 world0) = Inr s1"
    "process_all clock0 [''{'', ''a'', ''}'', ''b''] s1 = Inr s2"
    "process clock0 ''}'' s2 = Inr s3"
    "\<forall>n. \<exists>s. process_all clock0 (take n [''{'', ''a'', ''}'', ''b'']) s1 = Inr s \<and>
        g_consoleLogQueue (snd s) = g_consoleLogQueue (snd s1) \<and>
        g_fileLogQueue (snd s) = g_fileLogQueue (snd s1)"
    "g_consoleLogQueue (snd s3) = g_consoleLogQueue (snd s1) @ [''bulk: a, b'']"
    unfolding c by auto
  from r(1) o have q1: "g_consoleLogQueue (snd s1) = []"
    by (auto simp: world0_def)
  from r(4) [rule_format, of 4] r(2) have q2: "g_consoleLogQueue (snd s2) = g_consoleLogQueue (snd s1)"
    by auto
  from q1 q2 have q2': "g_consoleLogQueue (snd s2) = []" by simp
  from r(5) q1 have q3: "g_consoleLogQueue (snd s3) = [''bulk: a, b'']" by simp
  show ?thesis
    by (intro exI conjI) (rule r(1) r(2) r(3) q1 q2' q3)+
qed

text \<open>The definitions a concrete run unfolds.\<close>

lemmas eval_defs =
  process_def flush_def log_def Bulk_def world0_def std_time_def clock0_def log_filename_def
  to_string_long_def to_string_uint_def to_string_nat.simps digit_char_def INT_MAX_def
  INT_MIN_def Let_def

lemma log_depth_zero: "m_nestingLvl (fst (log clk s)) = 0"
  by (cases s) (simp add: log_def std_time_def Let_def split: prod.splits)

lemma flush_depth: "m_nestingLvl (fst (flush clk s)) = m_nestingLvl (fst s)"
  by (simp add: flush_def log_depth_zero)

lemma flush_emits_at_zero:
  "g_consoleLogQueue (snd (flush clk s)) \<noteq> g_consoleLogQueue (snd s) \<or>
   g_fileLogQueue (snd (flush clk s)) \<noteq> g_fileLogQueue (snd s) \<Longrightarrow> m_nestingLvl (fst s) = 0"
  by (auto simp: flush_def split: if_splits)

lemma process_depth:
  assumes "process clk cmd (b, w) = Inr (b', w')"
  shows "m_nestingLvl b' =
           m_nestingLvl b + (if cmd = ''{'' then 1 else if cmd = ''}'' then - 1 else 0)"
proof (cases "cmd = ''{''")
  case True
  obtain b1 w1 where f: "(if m_nestingLvl b = 0 then flush clk (b, w) else (b, w)) = (b1, w1)"
    by (cases "if m_nestingLvl b = 0 then flush clk (b, w) else (b, w)")
  have "m_nestingLvl (fst (if m_nestingLvl b = 0 then flush clk (b, w) else (b, w))) = m_nestingLvl b"
    by (simp add: flush_depth)
  with f have d: "m_nestingLvl b1 = m_nestingLvl b" by simp
  from assms True f d show ?thesis
    by (auto simp: process_def split: if_splits)
next
  case nopen: False
  show ?thesis
  proof (cases "cmd = ''}''")
    case True
    let ?b1 = "b\<lparr>m_nestingLvl := m_nestingLvl b - 1\<rparr>"
    have "m_nestingLvl (fst (if m_nestingLvl ?b1 = 0 then flush clk (?b1, w) else (?b1, w))) =
            m_nestingLvl b - 1"
      by (simp add: flush_depth)
    with assms True show ?thesis
      by (auto simp: process_def Let_def split: if_splits)
  next
    case False
    define b3 where "b3 = (if m_nCmds b > 0
          then b\<lparr>m_cmds := m_cmds b @ '','' @ '' '' @ cmd, m_nCmds := m_nCmds b + 1\<rparr>
          else b\<lparr>m_time := clk (time_calls w), m_cmds := m_cmds b @ '' '' @ cmd,
                 m_nCmds := m_nCmds b + 1\<rparr>)"
    define w1 where "w1 = (if m_nCmds b > 0 then w else w\<lparr>time_calls := Suc (time_calls w)\<rparr>)"
    have p: "process clk cmd (b, w) =
               Inr (if m_nCmds b3 = m_buffer_size b3 \<and> m_nestingLvl b3 = 0
                    then flush clk (b3, w1) else (b3, w1))"
      using nopen False
      by (simp add: process_def b3_def w1_def std_time_def Let_def)
    have d3: "m_nestingLvl b3 = m_nestingLvl b" by (simp add: b3_def)
    have "m_nestingLvl (fst (if m_nCmds b3 = m_buffer_size b3 \<and> m_nestingLvl b3 = 0
                    then flush clk (b3, w1) else (b3, w1))) = m_nestingLvl b3"
      by (simp add: flush_depth)
    with assms p d3 nopen False show ?thesis by auto
  qed
qed

lemma process_emits_at_zero:
  assumes "process clk cmd (b, w) = Inr (b', w')"
    and "g_consoleLogQueue w' \<noteq> g_consoleLogQueue w \<or> g_fileLogQueue w' \<noteq> g_fileLogQueue w"
  shows "if cmd = ''{'' then m_nestingLvl b = 0 else m_nestingLvl b' = 0"
proof (cases "cmd = ''{''")
  case True
  have "m_nestingLvl b = 0"
  proof (rule ccontr)
    assume "m_nestingLvl b \<noteq> 0"
    with assms(1) True have "w' = w"
      by (auto simp: process_def split: if_splits)
    with assms(2) show False by simp
  qed
  with True show ?thesis by simp
next
  case nopen: False
  show ?thesis
  proof (cases "cmd = ''}''")
    case True
    have "m_nestingLvl b - 1 = 0"
    proof (rule ccontr)
      assume "m_nestingLvl b - 1 \<noteq> 0"
      with assms(1) True have "w' = w"
        by (auto simp: process_def Let_def split: if_splits)
      with assms(2) show False by simp
    qed
    with process_depth [OF assms(1)] True show ?thesis by simp
  next
    case False
    have "m_nestingLvl b = 0"
    proof (rule ccontr)
      assume "m_nestingLvl b \<noteq> 0"
      with assms(1) nopen False
      have "g_consoleLogQueue w' = g_consoleLogQueue w \<and> g_fileLogQueue w' = g_fileLogQueue w"
        by (auto simp: process_def Let_def std_time_def split: if_splits)
      with assms(2) show False by simp
    qed
    with process_depth [OF assms(1)] nopen False show ?thesis by simp
  qed
qed

lemma process_all_depth:
  assumes "process_all clk cmds s = Inr s'"
  shows "m_nestingLvl (fst s') =
           m_nestingLvl (fst s) + int (count_list cmds ''{'') - int (count_list cmds ''}'')"
  using assms
proof (induction cmds arbitrary: s)
  case Nil
  then show ?case by simp
next
  case (Cons c cmds)
  from Cons.prems obtain s1
    where s1: "process clk c s = Inr s1" "process_all clk cmds s1 = Inr s'"
    by (auto split: sum.splits)
  obtain b w b1 w1 where e: "s = (b, w)" "s1 = (b1, w1)" by (cases s, cases s1) auto
  from process_depth [of clk c b w b1 w1] s1(1) e
  have "m_nestingLvl (fst s1) =
          m_nestingLvl (fst s) + (if c = ''{'' then 1 else if c = ''}'' then - 1 else 0)"
    by simp
  with Cons.IH [OF s1(2)] show ?case by simp
qed

subsection \<open>C5: the nesting depth\<close>

text \<open>
  Claim C5, as the code has it. After any sequence of \<open>process\<close> calls on a session
  the nesting depth is the number of open markers minus the number of close markers
  processed so far; it is therefore at least 0 whenever no more close than open markers
  have arrived, and negative otherwise. The next call adds one to it exactly on an open
  marker, subtracts one exactly on a close marker and leaves it alone on a plain command.
  A call that pushes to a queue does so at depth 0: an open marker flushes before it
  increments, a close marker after it has decremented, a plain command leaves the depth at
  0. A \<open>flush\<close> from outside (\<open>disconnect\<close>) pushes only at depth 0.
\<close>

theorem nesting_depth:
  assumes "process_all clk cmds (Bulk clk C w0) = Inr (b, w)"
    and "process clk cmd (b, w) = Inr (b', w')"
  shows "m_nestingLvl b = int (count_list cmds ''{'') - int (count_list cmds ''}'') \<and>
         (count_list cmds ''}'' \<le> count_list cmds ''{'' \<longrightarrow> 0 \<le> m_nestingLvl b) \<and>
         m_nestingLvl b' =
           m_nestingLvl b + (if cmd = ''{'' then 1 else if cmd = ''}'' then - 1 else 0) \<and>
         (g_consoleLogQueue w' \<noteq> g_consoleLogQueue w \<or> g_fileLogQueue w' \<noteq> g_fileLogQueue w \<longrightarrow>
            (if cmd = ''{'' then m_nestingLvl b = 0 else m_nestingLvl b' = 0)) \<and>
         (g_consoleLogQueue (snd (flush clk (b, w))) \<noteq> g_consoleLogQueue w \<or>
          g_fileLogQueue (snd (flush clk (b, w))) \<noteq> g_fileLogQueue w \<longrightarrow> m_nestingLvl b = 0)"
proof -
  have d: "m_nestingLvl b = int (count_list cmds ''{'') - int (count_list cmds ''}'')"
    using process_all_depth [OF assms(1)] by (simp add: Bulk_def std_time_def)
  have f: "g_consoleLogQueue (snd (flush clk (b, w))) \<noteq> g_consoleLogQueue w \<or>
          g_fileLogQueue (snd (flush clk (b, w))) \<noteq> g_fileLogQueue w \<longrightarrow> m_nestingLvl b = 0"
    using flush_emits_at_zero [of clk "(b, w)"] by auto
  have e: "g_consoleLogQueue w' \<noteq> g_consoleLogQueue w \<or> g_fileLogQueue w' \<noteq> g_fileLogQueue w \<longrightarrow>
            (if cmd = ''{'' then m_nestingLvl b = 0 else m_nestingLvl b' = 0)"
    using process_emits_at_zero [OF assms(2)] by blast
  from d have n: "count_list cmds ''}'' \<le> count_list cmds ''{'' \<longrightarrow> 0 \<le> m_nestingLvl b"
    by simp
  from d n process_depth [OF assms(2)] e f show ?thesis
    by (intro conjI)
qed

theorem nesting_depth_witness:
  "process_all clock0 [''{'', ''a''] (Bulk clock0 3 world0) =
     Inr (\<lparr>m_cmds = ''bulk: a'', m_buffer_size = 3, m_nCmds = 1, m_time = 1002,
            m_nestingLvl = 1\<rparr>,
          \<lparr>g_consoleLogQueue = [], g_fileLogQueue = [], postfix_counter = 0,
            time_calls = 3\<rparr>) \<and>
   process clock0 ''}''
       (\<lparr>m_cmds = ''bulk: a'', m_buffer_size = 3, m_nCmds = 1, m_time = 1002,
          m_nestingLvl = 1\<rparr>,
        \<lparr>g_consoleLogQueue = [], g_fileLogQueue = [], postfix_counter = 0,
          time_calls = 3\<rparr>) =
     Inr (\<lparr>m_cmds = ''bulk:'', m_buffer_size = 3, m_nCmds = 0, m_time = 1003,
            m_nestingLvl = 0\<rparr>,
          \<lparr>g_consoleLogQueue = [''bulk: a''],
            g_fileLogQueue = [(''bulk1002_0.log'', ''bulk: a'')],
            postfix_counter = 1, time_calls = 4\<rparr>) \<and>
   (1::int) = int (count_list [''{'', ''a''] ''{'') - int (count_list [''{'', ''a''] ''}'') \<and>
   (0::int) = 1 + - 1"
proof -
  have r1: "process_all clock0 [''{'', ''a''] (Bulk clock0 3 world0) =
     Inr (\<lparr>m_cmds = ''bulk: a'', m_buffer_size = 3, m_nCmds = 1, m_time = 1002,
            m_nestingLvl = 1\<rparr>,
          \<lparr>g_consoleLogQueue = [], g_fileLogQueue = [], postfix_counter = 0,
            time_calls = 3\<rparr>)"
    by (simp add: eval_defs)
  have r2: "process clock0 ''}''
       (\<lparr>m_cmds = ''bulk: a'', m_buffer_size = 3, m_nCmds = 1, m_time = 1002,
          m_nestingLvl = 1\<rparr>,
        \<lparr>g_consoleLogQueue = [], g_fileLogQueue = [], postfix_counter = 0,
          time_calls = 3\<rparr>) =
     Inr (\<lparr>m_cmds = ''bulk:'', m_buffer_size = 3, m_nCmds = 0, m_time = 1003,
            m_nestingLvl = 0\<rparr>,
          \<lparr>g_consoleLogQueue = [''bulk: a''],
            g_fileLogQueue = [(''bulk1002_0.log'', ''bulk: a'')],
            postfix_counter = 1, time_calls = 4\<rparr>)"
    by (simp add: eval_defs)
  from nesting_depth [OF r1 r2] r1 r2 show ?thesis by simp
qed

theorem nesting_depth_counterexample:
  "map_sum id (m_nestingLvl \<circ> fst) (process clock0 ''}'' (Bulk clock0 3 world0)) = Inr (- 1)"
  by (simp add: eval_defs)

subsection \<open>C6: a close marker with no open marker\<close>

text \<open>
  Claim C6, as the code has it. A close marker that arrives at depth 0 takes the depth to
  \<open>-1\<close> and flushes nothing. One open marker then gives back exactly the state before
  the unmatched close marker: depth 0, the same buffer, nothing pushed, so flushing goes on
  as before. Two more close markers instead take the depth to \<open>-3\<close>, where a plain
  command is appended and never flushed, whatever the capacity: the call returns, the
  stream grows by the separator (a comma when a command is already buffered), a space and
  the command, the command count grows by one, and the queues, the counter, the depth and
  the capacity are what they were.
\<close>

theorem unmatched_close_recovery:
  assumes "m_nestingLvl b = 0"
  shows "process clk ''}'' (b, w) = Inr (b\<lparr>m_nestingLvl := - 1\<rparr>, w) \<and>
         process clk ''{'' (b\<lparr>m_nestingLvl := - 1\<rparr>, w) = Inr (b, w) \<and>
         process_all clk [''}'', ''}''] (b\<lparr>m_nestingLvl := - 1\<rparr>, w) =
           Inr (b\<lparr>m_nestingLvl := - 3\<rparr>, w) \<and>
         (cmd \<noteq> ''{'' \<and> cmd \<noteq> ''}'' \<longrightarrow>
            (\<exists>b' w'. process clk cmd (b\<lparr>m_nestingLvl := - 3\<rparr>, w) = Inr (b', w') \<and>
               g_consoleLogQueue w' = g_consoleLogQueue w \<and>
               g_fileLogQueue w' = g_fileLogQueue w \<and>
               postfix_counter w' = postfix_counter w \<and>
               m_nestingLvl b' = - 3 \<and>
               m_buffer_size b' = m_buffer_size b \<and>
               m_nCmds b' = m_nCmds b + 1 \<and>
               m_cmds b' = m_cmds b @ (if 0 < m_nCmds b then '','' else []) @ '' '' @ cmd))"
proof -
  have a: "process clk ''}'' (b, w) = Inr (b\<lparr>m_nestingLvl := - 1\<rparr>, w)"
    using assms by (simp add: process_def flush_def INT_MIN_def Let_def)
  have "b\<lparr>m_nestingLvl := 0\<rparr> = b" using assms by simp
  then have o: "process clk ''{'' (b\<lparr>m_nestingLvl := - 1\<rparr>, w) = Inr (b, w)"
    by (simp add: process_def INT_MAX_def)
  have c: "process_all clk [''}'', ''}''] (b\<lparr>m_nestingLvl := - 1\<rparr>, w) =
           Inr (b\<lparr>m_nestingLvl := - 3\<rparr>, w)"
    by (simp add: process_def flush_def INT_MIN_def Let_def)
  have p: "cmd \<noteq> ''{'' \<and> cmd \<noteq> ''}'' \<longrightarrow>
            (\<exists>b' w'. process clk cmd (b\<lparr>m_nestingLvl := - 3\<rparr>, w) = Inr (b', w') \<and>
               g_consoleLogQueue w' = g_consoleLogQueue w \<and>
               g_fileLogQueue w' = g_fileLogQueue w \<and>
               postfix_counter w' = postfix_counter w \<and>
               m_nestingLvl b' = - 3 \<and>
               m_buffer_size b' = m_buffer_size b \<and>
               m_nCmds b' = m_nCmds b + 1 \<and>
               m_cmds b' = m_cmds b @ (if 0 < m_nCmds b then '','' else []) @ '' '' @ cmd)"
  proof
    assume "cmd \<noteq> ''{'' \<and> cmd \<noteq> ''}''"
    then have pl: "cmd \<noteq> ''{''" "cmd \<noteq> ''}''" by simp_all
    show "\<exists>b' w'. process clk cmd (b\<lparr>m_nestingLvl := - 3\<rparr>, w) = Inr (b', w') \<and>
               g_consoleLogQueue w' = g_consoleLogQueue w \<and>
               g_fileLogQueue w' = g_fileLogQueue w \<and>
               postfix_counter w' = postfix_counter w \<and>
               m_nestingLvl b' = - 3 \<and>
               m_buffer_size b' = m_buffer_size b \<and>
               m_nCmds b' = m_nCmds b + 1 \<and>
               m_cmds b' = m_cmds b @ (if 0 < m_nCmds b then '','' else []) @ '' '' @ cmd"
    proof (cases "0 < m_nCmds b")
      case True
      with pl show ?thesis
        by (simp add: process_def Let_def)
    next
      case False
      with pl show ?thesis
        by (simp add: process_def std_time_def Let_def)
    qed
  qed
  from a o c p show ?thesis by (intro conjI)
qed

text \<open>
  The theorem on a new session of capacity 3, and its last part on a new session of
  capacity 1: at depth \<open>-3\<close> the command \<open>a\<close> fills the buffer to its capacity and is
  not flushed.
\<close>

theorem unmatched_close_recovery_witness:
  "process clock0 ''}'' (Bulk clock0 3 world0) =
     Inr (fst (Bulk clock0 3 world0)\<lparr>m_nestingLvl := - 1\<rparr>, snd (Bulk clock0 3 world0)) \<and>
   process clock0 ''{''
     (fst (Bulk clock0 3 world0)\<lparr>m_nestingLvl := - 1\<rparr>, snd (Bulk clock0 3 world0)) =
     Inr (Bulk clock0 3 world0) \<and>
   m_nestingLvl (fst (Bulk clock0 3 world0)) = 0 \<and>
   process clock0 ''a''
     (fst (Bulk clock0 1 world0)\<lparr>m_nestingLvl := - 3\<rparr>, snd (Bulk clock0 1 world0)) =
     Inr (\<lparr>m_cmds = ''bulk: a'', m_buffer_size = 1, m_nCmds = 1, m_time = 1001,
            m_nestingLvl = - 3\<rparr>,
          \<lparr>g_consoleLogQueue = [], g_fileLogQueue = [], postfix_counter = 0,
           time_calls = 2\<rparr>)"
proof -
  have h: "m_nestingLvl (fst (Bulk clock0 3 world0)) = 0"
    by (simp add: Bulk_def std_time_def)
  have h1: "m_nestingLvl (fst (Bulk clock0 1 world0)) = 0"
    by (simp add: Bulk_def std_time_def)
  have e: "process clock0 ''a''
       (fst (Bulk clock0 1 world0)\<lparr>m_nestingLvl := - 3\<rparr>, snd (Bulk clock0 1 world0)) =
     Inr (\<lparr>m_cmds = ''bulk: a'', m_buffer_size = 1, m_nCmds = 1, m_time = 1001,
            m_nestingLvl = - 3\<rparr>,
          \<lparr>g_consoleLogQueue = [], g_fileLogQueue = [], postfix_counter = 0,
           time_calls = 2\<rparr>)"
    by (simp add: eval_defs)
  note unmatched_close_recovery [OF h1, of clock0 "snd (Bulk clock0 1 world0)" "''a''"]
  from this unmatched_close_recovery [OF h, of clock0 "snd (Bulk clock0 3 world0)" "''a''"] h e
  show ?thesis by simp
qed

text \<open>
  Claim C6 as stated fails: after three close markers on a new session of capacity 3 the
  depth is \<open>-3\<close>, not 0, and three plain commands that follow are not flushed.
\<close>

theorem unmatched_close_counterexample:
  "map_sum id (m_nestingLvl \<circ> fst)
     (process_all clock0 [''}'', ''}'', ''}''] (Bulk clock0 3 world0)) = Inr (- 3) \<and>
   map_sum id (g_consoleLogQueue \<circ> snd)
     (process_all clock0 [''}'', ''}'', ''}'', ''a'', ''b'', ''c''] (Bulk clock0 3 world0)) =
     Inr []"
  by (simp add: eval_defs)

subsection \<open>C8: null and invalid handles\<close>

lemma receive_loop_Nil: "receive_loop clk a [] sys = Inr sys"
  by (simp add: receive_loop.simps getline_def)

lemma receive_loop_Cons:
  "receive_loop clk a (c # cs) sys =
     (let cmd = takeWhile (\<lambda>x. x \<noteq> CHR 0x0A) (c # cs);
          rest = drop 1 (dropWhile (\<lambda>x. x \<noteq> CHR 0x0A) (c # cs))
      in if cmd \<noteq> [] then
           (case call_process clk a cmd sys of
              Inl e \<Rightarrow> Inl e
            | Inr sys' \<Rightarrow> receive_loop clk a rest sys')
         else receive_loop clk a rest sys)"
  by (subst receive_loop.simps) (simp add: getline_def Let_def)

text \<open>
  Claim C8, as the code has it. \<open>disconnect\<close> and \<open>receive\<close> with a null handle
  return at once: no batch, no error, and the whole state is unchanged.
\<close>

theorem null_handle_noop:
  "disconnect clk None sys = Inr sys \<and> receive clk None data sys = Inr sys"
  by (simp add: disconnect_def receive_def)

text \<open>
  Claim C8 as stated fails. The first \<open>disconnect\<close> of a new session deletes the
  object; the handle the caller holds still points to it. A second \<open>disconnect\<close> of
  the same handle calls \<open>flush\<close> on the deleted object and deletes it again, a
  \<open>receive\<close> of a command calls \<open>process\<close> on it, and a handle that never pointed
  to a session does the same: undefined behaviour, not a silent return.
\<close>

theorem invalid_handle_counterexample:
  "fst (connect clock0 3 system0) = Some 0 \<and>
   map_sum id globals (disconnect clock0 (Some 0) (snd (connect clock0 3 system0))) =
     Inr (world0\<lparr>time_calls := 2\<rparr>) \<and>
   and_then (disconnect clock0 (Some 0) (snd (connect clock0 3 system0)))
     (disconnect clock0 (Some 0)) = Inl InvalidPointer \<and>
   and_then (disconnect clock0 (Some 0) (snd (connect clock0 3 system0)))
     (receive clock0 (Some 0) (''a'' @ [CHR 0x0A])) = Inl InvalidPointer \<and>
   disconnect clock0 (Some 7) (snd (connect clock0 3 system0)) = Inl InvalidPointer"
  by (simp add: connect_def disconnect_def receive_def system0_def and_then_def eval_defs
      receive_loop_Nil receive_loop_Cons call_process_def)

subsection \<open>C10: capacity 0\<close>

lemma flush_extends:
  "\<exists>ext. g_fileLogQueue (snd (flush clk s)) = g_fileLogQueue (snd s) @ ext"
  by (cases s) (simp add: flush_def log_def std_time_def Let_def)

lemma process_extends:
  assumes "process clk cmd (b, w) = Inr (b', w')"
  shows "\<exists>ext. g_fileLogQueue w' = g_fileLogQueue w @ ext"
proof (cases "cmd = ''{''")
  case True
  from flush_extends [of clk "(b, w)"] assms True show ?thesis
    by (auto simp: process_def split: if_splits prod.splits)
next
  case nopen: False
  show ?thesis
  proof (cases "cmd = ''}''")
    case True
    from flush_extends [of clk "(b\<lparr>m_nestingLvl := m_nestingLvl b - 1\<rparr>, w)"] assms True
    show ?thesis
      by (auto simp: process_def Let_def split: if_splits)
  next
    case False
    define b3 where "b3 = (if m_nCmds b > 0
          then b\<lparr>m_cmds := m_cmds b @ '','' @ '' '' @ cmd, m_nCmds := m_nCmds b + 1\<rparr>
          else b\<lparr>m_time := clk (time_calls w), m_cmds := m_cmds b @ '' '' @ cmd,
                 m_nCmds := m_nCmds b + 1\<rparr>)"
    define w1 where "w1 = (if m_nCmds b > 0 then w else w\<lparr>time_calls := Suc (time_calls w)\<rparr>)"
    have p: "process clk cmd (b, w) =
               Inr (if m_nCmds b3 = m_buffer_size b3 \<and> m_nestingLvl b3 = 0
                    then flush clk (b3, w1) else (b3, w1))"
      using nopen False
      by (simp add: process_def b3_def w1_def std_time_def Let_def)
    have q: "g_fileLogQueue w1 = g_fileLogQueue w" by (simp add: w1_def)
    from flush_extends [of clk "(b3, w1)"] assms p q show ?thesis
      by (auto split: if_splits)
  qed
qed

lemma process_all_extends:
  assumes "process_all clk cmds s = Inr s'"
  shows "\<exists>ext. g_fileLogQueue (snd s') = g_fileLogQueue (snd s) @ ext"
  using assms
proof (induction cmds arbitrary: s)
  case Nil
  then show ?case by simp
next
  case (Cons c cmds)
  from Cons.prems obtain s1
    where s1: "process clk c s = Inr s1" "process_all clk cmds s1 = Inr s'"
    by (auto split: sum.splits)
  obtain b w b1 w1 where e: "s = (b, w)" "s1 = (b1, w1)" by (cases s, cases s1) auto
  from process_extends [of clk c b w b1 w1] s1(1) e
  obtain ext1 where "g_fileLogQueue (snd s1) = g_fileLogQueue (snd s) @ ext1" by auto
  moreover from Cons.IH [OF s1(2)]
  obtain ext2 where "g_fileLogQueue (snd s') = g_fileLogQueue (snd s1) @ ext2" by auto
  ultimately show ?case by simp
qed

lemma process_capacity_zero:
  assumes "m_buffer_size b = 0" and "process clk cmd (b, w) = Inr (b', w')"
    and "g_consoleLogQueue w' \<noteq> g_consoleLogQueue w \<or> g_fileLogQueue w' \<noteq> g_fileLogQueue w"
  shows "cmd = ''{'' \<or> cmd = ''}''"
proof (rule ccontr)
  assume "\<not> (cmd = ''{'' \<or> cmd = ''}'')"
  then have pl: "cmd \<noteq> ''{''" "cmd \<noteq> ''}''" by simp_all
  from pl assms(1,2)
  have "g_consoleLogQueue w' = g_consoleLogQueue w \<and> g_fileLogQueue w' = g_fileLogQueue w"
    by (auto simp: process_def Let_def std_time_def split: if_splits)
  with assms(3) show False by simp
qed

text \<open>
  Claim C10. \<open>connect\<close> with capacity 0 returns a handle to a new session whose
  buffer size is 0. Such a session takes any sequence of plain commands without pushing
  anything to either queue: they all stay in the stream, counted. Whatever state a session
  of buffer size 0 is in, a \<open>process\<close> call that pushes to a queue is the call of an
  open marker, or of a close marker that leaves the depth at 0. (The flush of
  \<open>disconnect\<close> is the third way out, see C1 and C5.)
\<close>

theorem capacity_zero:
  assumes "\<forall>c\<in>set cmds. c \<noteq> ''{'' \<and> c \<noteq> ''}''"
  shows "(\<exists>a sys' b0. connect clk 0 sys = (Some a, sys') \<and> heap sys' a = Some b0 \<and>
            m_buffer_size b0 = 0 \<and> m_nCmds b0 = 0) \<and>
         (\<exists>b w. process_all clk cmds (Bulk clk 0 w0) = Inr (b, w) \<and>
            g_consoleLogQueue w = g_consoleLogQueue w0 \<and>
            g_fileLogQueue w = g_fileLogQueue w0 \<and>
            m_nCmds b = length cmds \<and> m_cmds b = stream_of cmds \<and> m_buffer_size b = 0) \<and>
         (m_buffer_size b1 = 0 \<and> process clk cmd (b1, w1) = Inr (b2, w2) \<and>
            (g_consoleLogQueue w2 \<noteq> g_consoleLogQueue w1 \<or>
             g_fileLogQueue w2 \<noteq> g_fileLogQueue w1) \<longrightarrow>
            cmd = ''{'' \<or> (cmd = ''}'' \<and> m_nestingLvl b2 = 0))"
proof -
  have c: "\<exists>a sys' b0. connect clk 0 sys = (Some a, sys') \<and> heap sys' a = Some b0 \<and>
            m_buffer_size b0 = 0 \<and> m_nCmds b0 = 0"
    by (simp add: connect_def Bulk_def std_time_def Let_def)
  from process_all_plain_Inr [OF assms, of clk "Bulk clk 0 w0"] obtain b w
    where run: "process_all clk cmds (Bulk clk 0 w0) = Inr (b, w)"
    by (metis surj_pair)
  have sp: "spec_process_all 0 cmds session0 = session0\<lparr>pending := pending session0 @ cmds\<rparr>"
    by (rule spec_plain_accumulate [OF assms]) simp
  from reachable_refines [OF run] sp
  have r: "g_consoleLogQueue w = g_consoleLogQueue w0"
    "map snd (g_fileLogQueue w) = map snd (g_fileLogQueue w0)"
    "m_nCmds b = length cmds" "m_cmds b = stream_of cmds"
    by (simp_all add: refines_def session0_def)
  from process_all_extends [OF run] obtain ext
    where ext: "g_fileLogQueue w = g_fileLogQueue (snd (Bulk clk 0 w0)) @ ext"
    by auto
  have "g_fileLogQueue (snd (Bulk clk 0 w0)) = g_fileLogQueue w0"
    by (simp add: Bulk_def std_time_def)
  with ext r(2) have fq: "g_fileLogQueue w = g_fileLogQueue w0"
    by simp
  have bs: "m_buffer_size b = 0"
    using process_all_buffer_size [OF run] by (simp add: Bulk_buffer_size)
  have e: "m_buffer_size b1 = 0 \<and> process clk cmd (b1, w1) = Inr (b2, w2) \<and>
            (g_consoleLogQueue w2 \<noteq> g_consoleLogQueue w1 \<or>
             g_fileLogQueue w2 \<noteq> g_fileLogQueue w1) \<longrightarrow>
            cmd = ''{'' \<or> (cmd = ''}'' \<and> m_nestingLvl b2 = 0)"
  proof
    assume a: "m_buffer_size b1 = 0 \<and> process clk cmd (b1, w1) = Inr (b2, w2) \<and>
            (g_consoleLogQueue w2 \<noteq> g_consoleLogQueue w1 \<or>
             g_fileLogQueue w2 \<noteq> g_fileLogQueue w1)"
    from a process_capacity_zero [of b1 clk cmd w1 b2 w2] have m: "cmd = ''{'' \<or> cmd = ''}''"
      by blast
    from a process_emits_at_zero [of clk cmd b1 w1 b2 w2]
    have "if cmd = ''{'' then m_nestingLvl b1 = 0 else m_nestingLvl b2 = 0"
      by blast
    with m show "cmd = ''{'' \<or> (cmd = ''}'' \<and> m_nestingLvl b2 = 0)"
      by (cases "cmd = ''{''") simp_all
  qed
  from c run r(1) fq r(3,4) bs e show ?thesis
    by blast
qed

theorem capacity_zero_witness:
  "(\<exists>b w. process_all clock0 [''a'', ''b'', ''c''] (Bulk clock0 0 world0) = Inr (b, w) \<and>
      g_consoleLogQueue w = [] \<and> g_fileLogQueue w = [] \<and>
      m_nCmds b = 3 \<and> m_cmds b = ''bulk: a, b, c'') \<and>
   process clock0 ''{''
     (\<lparr>m_cmds = ''bulk: a'', m_buffer_size = 0, m_nCmds = 1, m_time = 1001, m_nestingLvl = 0\<rparr>,
      world0\<lparr>time_calls := 2\<rparr>) =
     Inr (\<lparr>m_cmds = ''bulk:'', m_buffer_size = 0, m_nCmds = 0, m_time = 1002, m_nestingLvl = 1\<rparr>,
          \<lparr>g_consoleLogQueue = [''bulk: a''],
           g_fileLogQueue = [(''bulk1001_0.log'', ''bulk: a'')],
           postfix_counter = 1, time_calls = 3\<rparr>)"
proof -
  have h: "\<forall>c\<in>set [''a'', ''b'', ''c'']. c \<noteq> ''{'' \<and> c \<noteq> ''}''" by simp
  have st: "stream_of [''a'', ''b'', ''c''] = ''bulk: a, b, c''"
    by (simp add: stream_of_def)
  have p: "process clock0 ''{''
     (\<lparr>m_cmds = ''bulk: a'', m_buffer_size = 0, m_nCmds = 1, m_time = 1001, m_nestingLvl = 0\<rparr>,
      world0\<lparr>time_calls := 2\<rparr>) =
     Inr (\<lparr>m_cmds = ''bulk:'', m_buffer_size = 0, m_nCmds = 0, m_time = 1002, m_nestingLvl = 1\<rparr>,
          \<lparr>g_consoleLogQueue = [''bulk: a''],
           g_fileLogQueue = [(''bulk1001_0.log'', ''bulk: a'')],
           postfix_counter = 1, time_calls = 3\<rparr>)"
    by (simp add: eval_defs)
  from capacity_zero [OF h, where clk = clock0 and ?w0.0 = world0 and sys = system0]
  obtain b w where r: "process_all clock0 [''a'', ''b'', ''c''] (Bulk clock0 0 world0) = Inr (b, w)"
    "g_consoleLogQueue w = g_consoleLogQueue world0" "g_fileLogQueue w = g_fileLogQueue world0"
    "m_nCmds b = length [''a'', ''b'', ''c'']" "m_cmds b = stream_of [''a'', ''b'', ''c'']"
    by blast
  from r(2-5) have q: "g_consoleLogQueue w = []" "g_fileLogQueue w = []" "m_nCmds b = 3"
    "m_cmds b = ''bulk: a, b, c''"
    by (simp_all add: world0_def st)
  show ?thesis
    by (intro conjI exI) (rule r(1) q p)+
qed

subsection \<open>C7: a concrete scenario\<close>

text \<open>
  Claim C7. In any state of the system and with any clock, a session connected with
  capacity 3 that receives \<open>cmd1\<close>, \<open>{\<close>, \<open>cmd2\<close> and \<open>cmd3\<close>, \<open>}\<close>,
  \<open>cmd4\<close> and is then disconnected pushes exactly three batches: nothing on
  \<open>cmd1\<close>, \<open>bulk: cmd1\<close> when the open marker arrives, nothing on \<open>cmd2\<close> and
  \<open>cmd3\<close>, \<open>bulk: cmd2, cmd3\<close> when the close marker arrives, nothing on
  \<open>cmd4\<close>, and \<open>bulk: cmd4\<close> on \<open>disconnect\<close>. The file items carry the same
  three strings.
\<close>

theorem scenario_capacity_three:
  "\<exists>h s0 s1 s2 s3 s4 s5 s6.
     connect clk 3 sys = (h, s0) \<and>
     receive clk h (''cmd1'' @ [CHR 0x0A]) s0 = Inr s1 \<and>
     g_consoleLogQueue (globals s1) = g_consoleLogQueue (globals sys) \<and>
     receive clk h (''{'' @ [CHR 0x0A]) s1 = Inr s2 \<and>
     g_consoleLogQueue (globals s2) = g_consoleLogQueue (globals sys) @ [''bulk: cmd1''] \<and>
     receive clk h (''cmd2'' @ [CHR 0x0A] @ ''cmd3'' @ [CHR 0x0A]) s2 = Inr s3 \<and>
     g_consoleLogQueue (globals s3) = g_consoleLogQueue (globals sys) @ [''bulk: cmd1''] \<and>
     receive clk h (''}'' @ [CHR 0x0A]) s3 = Inr s4 \<and>
     g_consoleLogQueue (globals s4) =
       g_consoleLogQueue (globals sys) @ [''bulk: cmd1'', ''bulk: cmd2, cmd3''] \<and>
     receive clk h (''cmd4'' @ [CHR 0x0A]) s4 = Inr s5 \<and>
     g_consoleLogQueue (globals s5) =
       g_consoleLogQueue (globals sys) @ [''bulk: cmd1'', ''bulk: cmd2, cmd3''] \<and>
     disconnect clk h s5 = Inr s6 \<and>
     g_consoleLogQueue (globals s6) =
       g_consoleLogQueue (globals sys) @ [''bulk: cmd1'', ''bulk: cmd2, cmd3'', ''bulk: cmd4''] \<and>
     map snd (g_fileLogQueue (globals s6)) =
       map snd (g_fileLogQueue (globals sys)) @
         [''bulk: cmd1'', ''bulk: cmd2, cmd3'', ''bulk: cmd4'']"
  by (simp add: connect_def receive_def disconnect_def call_process_def receive_loop_Nil
      receive_loop_Cons process_def flush_def log_def Bulk_def std_time_def INT_MAX_def
      INT_MIN_def Let_def)

section \<open>Threads: file names and shutdown\<close>

text \<open>The steps of \<open>Bulk::log\<close>, run by one thread alone, are \<open>log\<close>.\<close>

lemma log_steps:
  "(log_step clk ^^ 7) (enter_log b, d) = (f, d') \<Longrightarrow>
     pc f = L_done \<and> (self f, shared d') = log clk (b, shared d)"
  by (auto simp: eval_nat_numeral log_step_def enter_log_def log_def std_time_def Let_def
      notify_con_def notify_file_def split: if_splits)

subsection \<open>C4: file names\<close>

text \<open>
  Each flush of a non-empty buffer adds one to the 32-bit counter, and a counter that is
  \<open>2^32\<close> ahead gives the same name.
\<close>

lemma log_counter:
  "0 < m_nCmds b \<Longrightarrow> postfix_counter (snd (log clk (b, w))) = postfix_counter w + 1"
  by (simp add: log_def std_time_def Let_def)

lemma log_filename_wraps:
  "log_filename b (w\<lparr>postfix_counter := postfix_counter w + 2 ^ 32\<rparr>) = log_filename b w"
proof -
  have z: "(2 ^ 32 :: 32 word) = 0" by simp
  show ?thesis unfolding z by (simp add: log_filename_def)
qed

lemmas step_defs =
  step_def log_step_def console_logger_def file_logger_def Logger_dtor_def notify_con_def
  notify_file_def Logger_def enter_log_def clock1_def

text \<open>
  The name determines the timestamp and the counter value it was built from:
  \<open>std::to_string\<close> is injective, and the underscore separates the two numbers.
\<close>

lemma digit_char_cases:
  assumes "d < 10"
  shows "digit_char d \<in> set ''0123456789''"
  unfolding digit_char_def using assms by (intro nth_mem) simp

lemma digit_val_digit_char: "d < 10 \<Longrightarrow> digit_val (digit_char d) = d"
proof -
  assume "d < 10"
  then have "d = 0 \<or> d = 1 \<or> d = 2 \<or> d = 3 \<or> d = 4 \<or> d = 5 \<or> d = 6 \<or> d = 7 \<or> d = 8 \<or> d = 9"
    by arith
  then show ?thesis
    by (elim disjE) (simp_all add: digit_char_def digit_val_def)
qed

lemma nat_of_digits_snoc: "nat_of_digits (s @ [c]) = 10 * nat_of_digits s + digit_val c"
  by (simp add: nat_of_digits_def)

lemma nat_of_digits_to_string: "nat_of_digits (to_string_nat n) = n"
proof (induction n rule: to_string_nat.induct)
  case (1 n)
  show ?case
  proof (cases "n < 10")
    case True
    then show ?thesis
      by (subst to_string_nat.simps) (simp add: nat_of_digits_def digit_val_digit_char)
  next
    case False
    with "1.IH" show ?thesis
      by (subst to_string_nat.simps) (simp add: nat_of_digits_snoc digit_val_digit_char)
  qed
qed

lemma to_string_nat_inj: "to_string_nat m = to_string_nat n \<Longrightarrow> m = n"
  by (metis nat_of_digits_to_string)

lemma to_string_nat_digits: "set (to_string_nat n) \<subseteq> set ''0123456789''"
proof (induction n rule: to_string_nat.induct)
  case (1 n)
  show ?case
  proof (cases "n < 10")
    case True
    with digit_char_cases [of n] show ?thesis
      by (subst to_string_nat.simps) simp
  next
    case False
    have "n mod 10 < 10" by simp
    from digit_char_cases [OF this] "1.IH" False show ?thesis
      by (subst to_string_nat.simps) simp
  qed
qed

lemma to_string_nat_nonempty: "to_string_nat n \<noteq> []"
  by (subst to_string_nat.simps) simp

lemma to_string_long_chars: "set (to_string_long t) \<subseteq> set ''-0123456789''"
proof -
  define ds where "ds = ''0123456789''"
  have d: "set (to_string_nat k) \<subseteq> set ds" for k
    unfolding ds_def by (rule to_string_nat_digits)
  have "set (to_string_long t) \<subseteq> set (CHR ''-'' # ds)"
  proof (cases "t < 0")
    case True
    with d [of "nat (- t)"] show ?thesis
      by (simp only: to_string_long_def if_True list.set) blast
  next
    case False
    with d [of "nat t"] show ?thesis
      by (simp only: to_string_long_def if_False list.set) blast
  qed
  then show ?thesis by (simp only: ds_def)
qed

lemma to_string_long_inj: "to_string_long s = to_string_long t \<Longrightarrow> s = t"
proof -
  assume e: "to_string_long s = to_string_long t"
  have nm: "\<And>n m. CHR ''-'' # to_string_nat n \<noteq> to_string_nat m"
  proof
    fix n m assume "CHR ''-'' # to_string_nat n = to_string_nat m"
    then have "CHR ''-'' \<in> set (to_string_nat m)" by (metis list.set_intros(1))
    with to_string_nat_digits [of m] have "CHR ''-'' \<in> set ''0123456789''" by (rule subsetD)
    then show False by simp
  qed
  show ?thesis
  proof (cases "s < 0")
    case True
    show ?thesis
    proof (cases "t < 0")
      case t: True
      with True e have "to_string_nat (nat (- s)) = to_string_nat (nat (- t))"
        by (simp add: to_string_long_def)
      from to_string_nat_inj [OF this] True t show ?thesis by simp
    next
      case False
      with True e nm [of "nat (- s)" "nat t"] show ?thesis
        by (simp add: to_string_long_def)
    qed
  next
    case False
    show ?thesis
    proof (cases "t < 0")
      case True
      with False e nm [of "nat (- t)" "nat s"] show ?thesis
        by (simp add: to_string_long_def)
    next
      case t: False
      with False e have "to_string_nat (nat s) = to_string_nat (nat t)"
        by (simp add: to_string_long_def)
      from to_string_nat_inj [OF this] False t show ?thesis by simp
    qed
  qed
qed

lemma split_at_separator:
  assumes "xs @ c # ys = xs' @ c # ys'" "c \<notin> set xs" "c \<notin> set xs'"
  shows "xs = xs' \<and> ys = ys'"
proof -
  have tw: "\<And>zs ws. c \<notin> set zs \<Longrightarrow> takeWhile (\<lambda>x. x \<noteq> c) (zs @ c # ws) = zs"
  proof -
    fix zs ws show "c \<notin> set zs \<Longrightarrow> takeWhile (\<lambda>x. x \<noteq> c) (zs @ c # ws) = zs"
      by (induction zs) auto
  qed
  from tw [OF assms(2)] have a: "takeWhile (\<lambda>x. x \<noteq> c) (xs @ c # ys) = xs" .
  from tw [OF assms(3)] have b: "takeWhile (\<lambda>x. x \<noteq> c) (xs' @ c # ys') = xs'" .
  from a b assms(1) have "xs = xs'" by simp
  with assms(1) show ?thesis by simp
qed

lemma log_filename_eq_iff:
  "log_filename b w = log_filename b' w' \<longleftrightarrow>
     m_time b = m_time b' \<and> postfix_counter w = postfix_counter w'"
proof
  assume e: "log_filename b w = log_filename b' w'"
  have u: "CHR ''_'' \<notin> set (to_string_long (m_time b))" "CHR ''_'' \<notin> set (to_string_long (m_time b'))"
  proof -
    have n: "CHR ''_'' \<notin> set ''-0123456789''" by simp
    from n to_string_long_chars [of "m_time b"]
    show "CHR ''_'' \<notin> set (to_string_long (m_time b))" by (rule contra_subsetD [rotated])
    from n to_string_long_chars [of "m_time b'"]
    show "CHR ''_'' \<notin> set (to_string_long (m_time b'))" by (rule contra_subsetD [rotated])
  qed
  from e have "to_string_long (m_time b) @ CHR ''_'' # (to_string_uint (postfix_counter w) @ ''.log'') =
     to_string_long (m_time b') @ CHR ''_'' # (to_string_uint (postfix_counter w') @ ''.log'')"
    by (simp add: log_filename_def)
  from split_at_separator [OF this u]
  have "to_string_long (m_time b) = to_string_long (m_time b')"
    "to_string_uint (postfix_counter w) = to_string_uint (postfix_counter w')"
    by simp_all
  then have "m_time b = m_time b'" "unat (postfix_counter w) = unat (postfix_counter w')"
    by (auto dest: to_string_long_inj to_string_nat_inj simp: to_string_uint_def)
  then show "m_time b = m_time b' \<and> postfix_counter w = postfix_counter w'"
    by (simp add: word_unat_eq_iff)
next
  assume "m_time b = m_time b' \<and> postfix_counter w = postfix_counter w'"
  then show "log_filename b w = log_filename b' w'"
    by (simp add: log_filename_def)
qed

text \<open>
  So when no two calls of \<open>Bulk::log\<close> overlap, the names in the file queue are
  distinct as long as it holds at most \<open>2^32\<close> items: every \<open>process\<close> call keeps
  \<open>names_inv\<close>, and names built from counter values less than \<open>2^32\<close> apart differ.
\<close>

lemma names_inv_empty: "g_fileLogQueue w = [] \<Longrightarrow> names_inv w"
  by (simp add: names_inv_def)

lemma names_inv_cong:
  "g_fileLogQueue w' = g_fileLogQueue w \<Longrightarrow> postfix_counter w' = postfix_counter w \<Longrightarrow>
     names_inv w \<Longrightarrow> names_inv w'"
  by (simp add: names_inv_def)

lemma names_inv_push:
  assumes "names_inv w"
  shows "names_inv (w\<lparr>postfix_counter := postfix_counter w + 1,
            g_fileLogQueue := g_fileLogQueue w @ [(log_filename b w, x)]\<rparr>)"
  unfolding names_inv_def
proof (intro allI impI)
  fix i
  let ?q = "g_fileLogQueue w"
  let ?w = "w\<lparr>postfix_counter := postfix_counter w + 1,
            g_fileLogQueue := ?q @ [(log_filename b w, x)]\<rparr>"
  assume "i < length (g_fileLogQueue ?w)"
  then have i: "i \<le> length ?q" by simp
  show "\<exists>t. fst (g_fileLogQueue ?w ! i) =
          ''bulk'' @ to_string_long t @ ''_'' @
          to_string_uint (postfix_counter ?w - of_nat (length (g_fileLogQueue ?w) - i)) @ ''.log''"
  proof (cases "i < length ?q")
    case True
    with assms obtain t where t: "fst (?q ! i) =
          ''bulk'' @ to_string_long t @ ''_'' @
          to_string_uint (postfix_counter w - of_nat (length ?q - i)) @ ''.log''"
      unfolding names_inv_def by blast
    from True have s: "Suc (length ?q) - i = Suc (length ?q - i)" by simp
    have c: "postfix_counter ?w - of_nat (length (g_fileLogQueue ?w) - i) =
               postfix_counter w - of_nat (length ?q - i)"
      by (simp add: s)
    have n: "g_fileLogQueue ?w ! i = ?q ! i"
      using True by (simp add: nth_append)
    show ?thesis unfolding c n using t by blast
  next
    case False
    with i have "i = length ?q" by simp
    then show ?thesis
      by (simp add: log_filename_def) blast
  qed
qed

lemma names_inv_log: "names_inv w \<Longrightarrow> names_inv (snd (log clk (b, w)))"
proof -
  assume n: "names_inv w"
  show ?thesis
  proof (cases "0 < m_nCmds b")
    case True
    have "names_inv (w\<lparr>postfix_counter := postfix_counter w + 1,
            g_fileLogQueue := g_fileLogQueue w @ [(log_filename b w, m_cmds b)]\<rparr>)"
      by (rule names_inv_push [OF n])
    then show ?thesis
      using True by (auto simp: log_def std_time_def Let_def elim!: names_inv_cong [rotated 2])
  next
    case False
    with n show ?thesis
      by (auto simp: log_def std_time_def Let_def elim!: names_inv_cong [rotated 2])
  qed
qed

lemma names_inv_flush: "names_inv (snd s) \<Longrightarrow> names_inv (snd (flush clk s))"
  by (cases s) (simp add: flush_def names_inv_log)

lemma names_inv_process:
  assumes "names_inv w" "process clk cmd (b, w) = Inr (b', w')"
  shows "names_inv w'"
proof (cases "cmd = ''{''")
  case True
  from names_inv_flush [of "(b, w)" clk] assms True show ?thesis
    by (auto simp: process_def split: if_splits prod.splits)
next
  case nopen: False
  show ?thesis
  proof (cases "cmd = ''}''")
    case True
    from names_inv_flush [of "(b\<lparr>m_nestingLvl := m_nestingLvl b - 1\<rparr>, w)" clk] assms True
    show ?thesis
      by (auto simp: process_def Let_def split: if_splits)
  next
    case False
    define b3 where "b3 = (if m_nCmds b > 0
          then b\<lparr>m_cmds := m_cmds b @ '','' @ '' '' @ cmd, m_nCmds := m_nCmds b + 1\<rparr>
          else b\<lparr>m_time := clk (time_calls w), m_cmds := m_cmds b @ '' '' @ cmd,
                 m_nCmds := m_nCmds b + 1\<rparr>)"
    define w1 where "w1 = (if m_nCmds b > 0 then w else w\<lparr>time_calls := Suc (time_calls w)\<rparr>)"
    have p: "process clk cmd (b, w) =
               Inr (if m_nCmds b3 = m_buffer_size b3 \<and> m_nestingLvl b3 = 0
                    then flush clk (b3, w1) else (b3, w1))"
      using nopen False
      by (simp add: process_def b3_def w1_def std_time_def Let_def)
    have n1: "names_inv w1"
      using assms(1) by (auto simp: w1_def elim!: names_inv_cong [rotated 2])
    from names_inv_flush [of "(b3, w1)" clk] n1 assms(2) p show ?thesis
      by (auto split: if_splits)
  qed
qed

lemma names_inv_process_all:
  assumes "names_inv (snd s)" "process_all clk cmds s = Inr s'"
  shows "names_inv (snd s')"
  using assms
proof (induction cmds arbitrary: s)
  case Nil
  then show ?case by simp
next
  case (Cons c cmds)
  from Cons.prems obtain s1
    where s1: "process clk c s = Inr s1" "process_all clk cmds s1 = Inr s'"
    by (auto split: sum.splits)
  obtain b w b1 w1 where e: "s = (b, w)" "s1 = (b1, w1)" by (cases s, cases s1) auto
  from names_inv_process [of w clk c b b1 w1] Cons.prems(1) s1(1) e
  have "names_inv (snd s1)" by simp
  from Cons.IH [OF this s1(2)] show ?case .
qed

lemma word32_of_nat_neq:
  assumes "b < a" "a \<le> 2 ^ 32" "0 < b"
  shows "(of_nat a :: 32 word) \<noteq> of_nat b"
proof
  assume "(of_nat a :: 32 word) = of_nat b"
  then have "unat (of_nat a :: 32 word) = unat (of_nat b :: 32 word)" by simp
  then have "a mod 2 ^ 32 = b mod 2 ^ 32"
    by (simp add: unat_of_nat)
  with assms show False
    by (cases "a = 2 ^ 32") simp_all
qed

lemma names_inv_distinct:
  assumes "names_inv w" "length (g_fileLogQueue w) \<le> 2 ^ 32"
  shows "distinct (map fst (g_fileLogQueue w))"
proof -
  let ?q = "g_fileLogQueue w" and ?c = "postfix_counter w"
  have "fst (?q ! i) \<noteq> fst (?q ! j)" if ij: "i < j" "j < length ?q" for i j
  proof
    assume e: "fst (?q ! i) = fst (?q ! j)"
    from assms(1) ij obtain t where t: "fst (?q ! i) =
        log_filename \<lparr>m_cmds = [], m_buffer_size = 0, m_nCmds = 0, m_time = t, m_nestingLvl = 0\<rparr>
          (w\<lparr>postfix_counter := ?c - of_nat (length ?q - i)\<rparr>)"
      unfolding names_inv_def log_filename_def by force
    from assms(1) ij obtain u where u: "fst (?q ! j) =
        log_filename \<lparr>m_cmds = [], m_buffer_size = 0, m_nCmds = 0, m_time = u, m_nestingLvl = 0\<rparr>
          (w\<lparr>postfix_counter := ?c - of_nat (length ?q - j)\<rparr>)"
      unfolding names_inv_def log_filename_def by force
    from e t u have "?c - of_nat (length ?q - i) = ?c - of_nat (length ?q - j)"
      by (simp add: log_filename_eq_iff)
    then have "(of_nat (length ?q - i) :: 32 word) = of_nat (length ?q - j)" by simp
    moreover from ij assms(2) have "length ?q - j < length ?q - i" "length ?q - i \<le> 2 ^ 32"
      "0 < length ?q - j"
      by simp_all
    ultimately show False using word32_of_nat_neq by blast
  qed
  then have "\<forall>i j. i < j \<longrightarrow> j < length (map fst ?q) \<longrightarrow> map fst ?q ! i \<noteq> map fst ?q ! j"
    by simp
  then show ?thesis
    by (simp only: distinct_conv_nth) (metis nat_neq_iff)
qed

text \<open>
  Claim C4 fails on the code. Two sessions whose batches started in the same second flush
  on two threads. Each thread reads the counter before the other has incremented it
  (\<open>postfix_counter.load()\<close> and \<open>++postfix_counter\<close> are two operations), so both
  build the name \<open>bulk1000_0.log\<close>: the file queue holds two batches under one name.
\<close>

theorem filename_race:
  "map_sum id fst (process clock1 ''a'' (Bulk clock1 3 world0)) = Inr bulk_a \<and>
   map_sum id fst (process clock1 ''b'' (Bulk clock1 3 world0)) = Inr bulk_b \<and>
   g_fileLogQueue (shared (run clock1
       [Producer 0, Producer 1, Producer 0, Producer 1, Producer 0, Producer 1]
       (Logger [enter_log bulk_a, enter_log bulk_b]))) =
     [(''bulk1000_0.log'', ''bulk: a''), (''bulk1000_0.log'', ''bulk: b'')]"
  by (simp add: step_defs bulk_a_def bulk_b_def eval_defs)

subsection \<open>C9: shutdown\<close>

lemma run_append: "run clk (ts @ us) d = run clk us (run clk ts d)"
  by (induction ts arbitrary: d) simp_all

lemma run_one_flush_then_shutdown:
  "run clock1 one_flush_then_shutdown (Logger [enter_log bulk_a]) = stranded"
  by (simp add: one_flush_then_shutdown_def stranded_def step_defs bulk_a_def eval_defs)

text \<open>
  Once the destructor is in its first \<open>join\<close> and the three workers are blocked, no
  step of a worker or of the destructor changes anything: nobody notifies.
\<close>

lemma blocked_step:
  assumes "console_worker d = W_blocked" "file_worker1 d = W_blocked" "file_worker2 d = W_blocked"
    and "dtor d = D_join 0" and "t \<in> {ConsoleWorker, FileWorker1, FileWorker2, Destructor}"
  shows "step clk t d = d"
  using assms
  by (auto simp: step_def console_logger_def file_logger_def Logger_dtor_def)

lemma blocked_run:
  assumes "console_worker d = W_blocked" "file_worker1 d = W_blocked" "file_worker2 d = W_blocked"
    and "dtor d = D_join 0"
    and "\<forall>t\<in>set sched. t \<in> {ConsoleWorker, FileWorker1, FileWorker2, Destructor}"
  shows "run clk sched d = d"
  using assms(5)
proof (induction sched)
  case Nil
  show ?case by simp
next
  case (Cons t sched)
  then have "t \<in> {ConsoleWorker, FileWorker1, FileWorker2, Destructor}" by simp
  from blocked_step [OF assms(1-4) this, of clk] Cons show ?case by simp
qed

text \<open>
  The part of the claim the worker loop does deliver: a console worker that is awake when
  the stop flag is set writes every item of its queue, in order, and only then leaves.
\<close>

lemma console_logger_drains:
  assumes "console_worker d = W_wait" "s_bStopWorkers d" "g_consoleLogQueue (shared d) = q"
  shows "run clk (replicate (2 * length q + 1) ConsoleWorker) d =
           d\<lparr>shared := (shared d)\<lparr>g_consoleLogQueue := []\<rparr>, cout := cout d @ q,
             console_worker := W_exit\<rparr>"
  using assms
proof (induction q arbitrary: d)
  case Nil
  then show ?case
    by (simp add: step_def console_logger_def)
next
  case (Cons x q)
  let ?d2 = "d\<lparr>shared := (shared d)\<lparr>g_consoleLogQueue := q\<rparr>, cout := cout d @ [x]\<rparr>"
  have two: "step clk ConsoleWorker (step clk ConsoleWorker d) = ?d2"
    using Cons.prems by (simp add: step_def console_logger_def)
  have "console_worker ?d2 = W_wait" "s_bStopWorkers ?d2" "g_consoleLogQueue (shared ?d2) = q"
    using Cons.prems by simp_all
  from Cons.IH [OF this] two show ?case
    by simp
qed

text \<open>
  Claim C9 fails on the code. After the schedule \<open>one_flush_then_shutdown\<close> the batch
  \<open>bulk: a\<close> is in the console queue, enqueued before the stop flag was set, and the
  console worker is blocked in \<open>wait\<close>. The destructor has set the flag and woken
  nobody. However the workers and the destructor are scheduled from then on, the batch is
  never written to \<open>std::cout\<close>, the console worker never leaves \<open>wait\<close>, and the
  destructor never gets past its first \<open>join\<close>.
\<close>

theorem shutdown_strands_item:
  assumes "\<forall>t\<in>set sched. t \<in> {ConsoleWorker, FileWorker1, FileWorker2, Destructor}"
  shows "g_consoleLogQueue (shared (run clock1 (one_flush_then_shutdown @ sched)
             (Logger [enter_log bulk_a]))) = [''bulk: a''] \<and>
         cout (run clock1 (one_flush_then_shutdown @ sched) (Logger [enter_log bulk_a])) = [] \<and>
         s_bStopWorkers (run clock1 (one_flush_then_shutdown @ sched)
             (Logger [enter_log bulk_a])) \<and>
         console_worker (run clock1 (one_flush_then_shutdown @ sched)
             (Logger [enter_log bulk_a])) = W_blocked \<and>
         dtor (run clock1 (one_flush_then_shutdown @ sched) (Logger [enter_log bulk_a])) =
           D_join 0"
proof -
  have "run clock1 (one_flush_then_shutdown @ sched) (Logger [enter_log bulk_a]) =
          run clock1 sched stranded"
    by (simp add: run_append run_one_flush_then_shutdown)
  also have "\<dots> = stranded"
    by (rule blocked_run [OF _ _ _ _ assms]) (simp_all add: stranded_def)
  finally show ?thesis by (simp add: stranded_def)
qed

theorem shutdown_strands_item_witness:
  "g_consoleLogQueue (shared (run clock1
       (one_flush_then_shutdown @ [ConsoleWorker, Destructor, FileWorker1, FileWorker2])
       (Logger [enter_log bulk_a]))) = [''bulk: a''] \<and>
   cout (run clock1
       (one_flush_then_shutdown @ [ConsoleWorker, Destructor, FileWorker1, FileWorker2])
       (Logger [enter_log bulk_a])) = [] \<and>
   dtor (run clock1
       (one_flush_then_shutdown @ [ConsoleWorker, Destructor, FileWorker1, FileWorker2])
       (Logger [enter_log bulk_a])) = D_join 0"
proof -
  have "\<forall>t\<in>set [ConsoleWorker, Destructor, FileWorker1, FileWorker2].
          t \<in> {ConsoleWorker, FileWorker1, FileWorker2, Destructor}"
    by simp
  from shutdown_strands_item [OF this] show ?thesis by simp
qed

text \<open>The same at a shutdown with nothing enqueued at all: the workers stay blocked.\<close>

lemma idle_shutdown_blocks:
  assumes "\<forall>t\<in>set sched. t \<in> {ConsoleWorker, FileWorker1, FileWorker2, Destructor}"
  shows "run clk ([ConsoleWorker, FileWorker1, FileWorker2, Destructor] @ sched) (Logger []) =
           (Logger [])\<lparr>s_bStopWorkers := True, console_worker := W_blocked,
              file_worker1 := W_blocked, file_worker2 := W_blocked, dtor := D_join 0\<rparr>"
proof -
  let ?d = "(Logger [])\<lparr>s_bStopWorkers := True, console_worker := W_blocked,
              file_worker1 := W_blocked, file_worker2 := W_blocked, dtor := D_join 0\<rparr>"
  have h1: "run clk [ConsoleWorker, FileWorker1, FileWorker2, Destructor] (Logger []) = ?d"
    by (simp add: step_defs world0_def)
  have h2: "run clk sched ?d = ?d"
    by (rule blocked_run [OF _ _ _ _ assms]) simp_all
  show ?thesis by (simp only: run_append h1 h2)
qed

end
